theory Spec2Isabelle
  imports Main "HOL-Library.Sublist" "HOL-Library.Multiset"
begin

section \<open>Python values used by the timeline builder\<close>

text \<open>
  The builder (\<^verbatim>\<open>src/timeline.py\<close>) works on \<^verbatim>\<open>datetime.datetime\<close> values.
  A datetime is either naive (no time zone) or aware (it carries a UTC offset).
  Both are kept as microsecond counts: the wall-clock reading counted from
  \<^verbatim>\<open>datetime.min\<close> (0001-01-01T00:00:00), and for an aware value its UTC offset.
  A \<^verbatim>\<open>timedelta\<close> is a number of microseconds.
  Ordering or subtracting a naive and an aware datetime raises \<^verbatim>\<open>TypeError\<close>;
  moving a datetime by a timedelta out of the years 1..9999 raises
  \<^verbatim>\<open>OverflowError\<close>.
\<close>

datatype py_error = TypeError | OverflowError

datatype datetime = Naive int | Aware int int

type_synonym timedelta = int

fun wall :: "datetime \<Rightarrow> int" where
  "wall (Naive l) = l"
| "wall (Aware l off) = l"

fun instant :: "datetime \<Rightarrow> int" where
  "instant (Naive l) = l"
| "instant (Aware l off) = l - off"

fun same_kind :: "datetime \<Rightarrow> datetime \<Rightarrow> bool" where
  "same_kind (Naive a) (Naive b) = True"
| "same_kind (Aware a oa) (Aware b ob) = True"
| "same_kind a b = False"

definition minutes :: "int \<Rightarrow> timedelta" where
  "minutes n = n * 60000000"

definition datetime_min :: datetime where
  "datetime_min = Naive 0"

text \<open>\<^verbatim>\<open>datetime.max\<close> is 9999-12-31T23:59:59.999999, the last microsecond of day 3652059.\<close>

definition MAX_WALL :: int where
  "MAX_WALL = 3652059 * 86400000000 - 1"

definition dt_sub :: "datetime \<Rightarrow> datetime \<Rightarrow> py_error + timedelta" where
  "dt_sub a b = (if same_kind a b then Inr (instant a - instant b) else Inl TypeError)"

definition dt_lt :: "datetime \<Rightarrow> datetime \<Rightarrow> py_error + bool" where
  "dt_lt a b = (if same_kind a b then Inr (instant a < instant b) else Inl TypeError)"

definition dt_le :: "datetime \<Rightarrow> datetime \<Rightarrow> py_error + bool" where
  "dt_le a b = (if same_kind a b then Inr (instant a \<le> instant b) else Inl TypeError)"

fun shift :: "datetime \<Rightarrow> timedelta \<Rightarrow> datetime" where
  "shift (Naive l) d = Naive (l + d)"
| "shift (Aware l off) d = Aware (l + d) off"

definition dt_add_td :: "datetime \<Rightarrow> timedelta \<Rightarrow> py_error + datetime" where
  "dt_add_td a d =
     (if 0 \<le> wall a + d \<and> wall a + d \<le> MAX_WALL then Inr (shift a d) else Inl OverflowError)"

definition dt_sub_td :: "datetime \<Rightarrow> timedelta \<Rightarrow> py_error + datetime" where
  "dt_sub_td a d = dt_add_td a (- d)"

text \<open>Temporal correlation windows and the inactivity fallback (module constants).\<close>

definition GRACE_BEFORE :: timedelta where
  "GRACE_BEFORE = minutes 5"

definition GRACE_AFTER :: timedelta where
  "GRACE_AFTER = minutes 15"

definition INACTIVITY_TIMEOUT :: timedelta where
  "INACTIVITY_TIMEOUT = minutes 60"

section \<open>Event and session records\<close>

text \<open>
  Events are Python dicts that the builder mutates in place and that sessions share
  with the timeline, so they live in a heap and are referred to by address.
  A missing key and a key bound to \<^verbatim>\<open>None\<close> read the same through \<^verbatim>\<open>dict.get\<close>;
  both are \<open>None\<close> here. The key \<^verbatim>\<open>_correlation\<close> is the field \<open>correlation\<close>.
\<close>

type_synonym ref = nat

record event =
  event_id :: "string option"
  timestamp :: "string option"
  parsed_time :: "datetime option"
  details :: "string \<rightharpoonup> string"
  correlation :: "string option"

type_synonym heap = "ref \<Rightarrow> event"

record session =
  start_time :: datetime
  end_time :: "datetime option"
  start_reason :: string
  end_reason :: "string option"
  user :: "string option"
  source_ip :: "string option"
  events :: "ref list"

record builder =
  raw_events :: "ref list"
  timeline :: "ref list"
  sessions :: "session list"

definition RDPTimelineBuilder :: "ref list \<Rightarrow> builder" where
  "RDPTimelineBuilder evs = \<lparr>raw_events = evs, timeline = [], sessions = []\<rparr>"

section \<open>Timestamp normaliser and timeline sorter\<close>

text \<open>\<^verbatim>\<open>ts.replace("Z", "+00:00")\<close>\<close>

definition replace_Z :: "string \<Rightarrow> string" where
  "replace_Z s = concat (map (\<lambda>c. if c = CHR ''Z'' then ''+00:00'' else [c]) s)"

text \<open>
  \<^verbatim>\<open>_parse_timestamp\<close>: the library parser \<^verbatim>\<open>datetime.fromisoformat\<close> is a parameter;
  it yields \<open>None\<close> where the library raises. A missing timestamp makes
  \<^verbatim>\<open>ts.replace\<close> raise; the bare \<^verbatim>\<open>except\<close> turns either failure into \<^verbatim>\<open>None\<close>.
\<close>

definition parse_timestamp :: "(string \<Rightarrow> datetime option) \<Rightarrow> string option \<Rightarrow> datetime option" where
  "parse_timestamp fromisoformat ts =
     (case ts of None \<Rightarrow> None | Some s \<Rightarrow> fromisoformat (replace_Z s))"

text \<open>The first loop of \<^verbatim>\<open>build_timeline\<close>: fill in the missing parsed times.\<close>

fun fill_parsed_time :: "(string \<Rightarrow> datetime option) \<Rightarrow> ref list \<Rightarrow> heap \<Rightarrow> heap" where
  "fill_parsed_time fromisoformat [] h = h"
| "fill_parsed_time fromisoformat (r # rs) h =
     fill_parsed_time fromisoformat rs
       (case parsed_time (h r) of
          None \<Rightarrow> h(r := (h r)\<lparr>parsed_time := parse_timestamp fromisoformat (timestamp (h r))\<rparr>)
        | Some t \<Rightarrow> h)"

text \<open>The sort key \<^verbatim>\<open>x.get("parsed_time") or datetime.datetime.min\<close>.\<close>

definition timeline_key :: "heap \<Rightarrow> ref \<Rightarrow> datetime" where
  "timeline_key h r = (case parsed_time (h r) of None \<Rightarrow> datetime_min | Some t \<Rightarrow> t)"

text \<open>
  \<^verbatim>\<open>sorted(xs, key=k)\<close>: a stable comparison sort that only asks \<^verbatim>\<open>k(y) < k(x)\<close> and
  stops at the first comparison that raises. It is written as insertion from the right.
  The result of a stable sort does not depend on the algorithm; nor does the error: among
  two or more keys of which one is naive and one aware, every comparison sort has to
  compare a naive key with an aware one (\<open>py_sorted_Inr\<close> and \<open>py_sorted_comparable\<close>
  below: this one returns exactly when all keys are of one kind).
\<close>

fun insort_lt :: "('a \<Rightarrow> datetime) \<Rightarrow> 'a \<Rightarrow> 'a list \<Rightarrow> py_error + 'a list" where
  "insort_lt k x [] = Inr [x]"
| "insort_lt k x (y # ys) =
     (case dt_lt (k y) (k x) of
        Inl e \<Rightarrow> Inl e
      | Inr False \<Rightarrow> Inr (x # y # ys)
      | Inr True \<Rightarrow> (case insort_lt k x ys of Inl e \<Rightarrow> Inl e | Inr zs \<Rightarrow> Inr (y # zs)))"

fun py_sorted :: "('a \<Rightarrow> datetime) \<Rightarrow> 'a list \<Rightarrow> py_error + 'a list" where
  "py_sorted k [] = Inr []"
| "py_sorted k (x # xs) =
     (case py_sorted k xs of Inl e \<Rightarrow> Inl e | Inr ys \<Rightarrow> insort_lt k x ys)"

definition build_timeline ::
  "(string \<Rightarrow> datetime option) \<Rightarrow> heap \<Rightarrow> builder \<Rightarrow> py_error + heap \<times> builder" where
  "build_timeline fromisoformat h self =
     (let h' = fill_parsed_time fromisoformat (raw_events self) h in
      case py_sorted (timeline_key h') (raw_events self) of
        Inl e \<Rightarrow> Inl e
      | Inr srt \<Rightarrow> Inr (h', self\<lparr>timeline := srt\<rparr>))"

section \<open>Session builder\<close>

text \<open>Truthiness of a dictionary value and the \<^verbatim>\<open>or\<close> chains over \<^verbatim>\<open>details\<close>.\<close>

definition truthy :: "string option \<Rightarrow> bool" where
  "truthy v = (case v of None \<Rightarrow> False | Some s \<Rightarrow> s \<noteq> [])"

definition py_or :: "string option \<Rightarrow> string option \<Rightarrow> string option" where
  "py_or a b = (if truthy a then a else b)"

definition extract_user :: "(string \<rightharpoonup> string) \<Rightarrow> string option" where
  "extract_user d =
     py_or (d ''TargetUserName'') (py_or (d ''SubjectUserName'')
       (py_or (d ''User'') (py_or (d ''AccountName'') (d ''Param1''))))"

definition extract_ip :: "(string \<rightharpoonup> string) \<Rightarrow> string option" where
  "extract_ip d =
     py_or (d ''IpAddress'') (py_or (d ''ClientAddress'')
       (py_or (d ''SourceNetworkAddress'') (py_or (d ''Address'') (d ''Param3''))))"

text \<open>The variables of the scan: the loop's locals, \<^verbatim>\<open>self.sessions\<close> and the event heap.\<close>

record scan_state =
  current_session :: "session option"
  last_event_time :: "datetime option"
  self_sessions :: "session list"
  event_heap :: heap

text \<open>Lines 48-49: the scan starts with no open session and no last event time.\<close>

definition scan_start :: "heap \<Rightarrow> session list \<Rightarrow> scan_state" where
  "scan_start h ss =
     \<lparr>current_session = None, last_event_time = None, self_sessions = ss, event_heap = h\<rparr>"

text \<open>Lines 77-83: close the open session after a long silence.\<close>

definition inactivity_check :: "datetime \<Rightarrow> scan_state \<Rightarrow> py_error + scan_state" where
  "inactivity_check t s =
     (case current_session s of
        None \<Rightarrow> Inr s
      | Some cs \<Rightarrow>
          (case last_event_time s of
             None \<Rightarrow> Inr s
           | Some l \<Rightarrow>
               (case dt_sub t l of
                  Inl e \<Rightarrow> Inl e
                | Inr d \<Rightarrow>
                    if d > INACTIVITY_TIMEOUT
                    then Inr (s\<lparr>current_session := None,
                               self_sessions := self_sessions s @
                                 [cs\<lparr>end_time := Some l, end_reason := Some ''inactivity_timeout''\<rparr>]\<rparr>)
                    else Inr s)))"

text \<open>Lines 85-117: record the time, then interpret the event.\<close>

definition interpret_event :: "ref \<Rightarrow> datetime \<Rightarrow> scan_state \<Rightarrow> scan_state" where
  "interpret_event r t s0 =
     (let s = s0\<lparr>last_event_time := Some t\<rparr>;
          ev = event_heap s r;
          heap_tagged = (event_heap s)(r := ev\<lparr>correlation := Some ''in_session''\<rparr>)
      in
      if event_id ev = Some ''21'' then
        s\<lparr>self_sessions :=
             (case current_session s of
                None \<Rightarrow> self_sessions s
              | Some cs \<Rightarrow> self_sessions s @
                  [cs\<lparr>end_time := Some t, end_reason := Some ''overlapping_session_start''\<rparr>]),
           event_heap := heap_tagged,
           current_session := Some
             \<lparr>start_time = t, end_time = None, start_reason = ''lsm_session_start'',
              end_reason = None, user = extract_user (details ev),
              source_ip = extract_ip (details ev), events = [r]\<rparr>\<rparr>
      else
        (case current_session s of
           None \<Rightarrow> s
         | Some cs \<Rightarrow>
             if event_id ev = Some ''24'' \<or> event_id ev = Some ''4634'' then
               s\<lparr>event_heap := heap_tagged,
                  self_sessions := self_sessions s @
                    [cs\<lparr>events := events cs @ [r], end_time := Some t,
                        end_reason := Some ''explicit_logoff''\<rparr>],
                  current_session := None\<rparr>
             else
               s\<lparr>event_heap := heap_tagged,
                  current_session := Some (cs\<lparr>events := events cs @ [r]\<rparr>)\<rparr>))"

text \<open>One iteration of the loop of lines 51-117; an event without a time is skipped.\<close>

definition scan_step :: "ref \<Rightarrow> scan_state \<Rightarrow> py_error + scan_state" where
  "scan_step r s =
     (case parsed_time (event_heap s r) of
        None \<Rightarrow> Inr s
      | Some t \<Rightarrow>
          (case inactivity_check t s of
             Inl e \<Rightarrow> Inl e
           | Inr s1 \<Rightarrow> Inr (interpret_event r t s1)))"

fun scan_loop :: "ref list \<Rightarrow> scan_state \<Rightarrow> py_error + scan_state" where
  "scan_loop [] s = Inr s"
| "scan_loop (r # rs) s =
     (case scan_step r s of Inl e \<Rightarrow> Inl e | Inr s' \<Rightarrow> scan_loop rs s')"

text \<open>Lines 119-123: close any session left open at the end of the logs.\<close>

definition close_at_log_end :: "scan_state \<Rightarrow> scan_state" where
  "close_at_log_end s =
     (case current_session s of
        None \<Rightarrow> s
      | Some cs \<Rightarrow>
          s\<lparr>self_sessions := self_sessions s @
              [cs\<lparr>end_time := last_event_time s,
                  end_reason := Some ''session_open_at_log_end''\<rparr>]\<rparr>)"

text \<open>The session-construction phase of \<^verbatim>\<open>build_sessions\<close> (lines 48-123).\<close>

definition session_pass :: "heap \<Rightarrow> builder \<Rightarrow> py_error + heap \<times> session list" where
  "session_pass h self =
     (case scan_loop (timeline self) (scan_start h (sessions self)) of
        Inl e \<Rightarrow> Inl e
      | Inr s \<Rightarrow> Inr (event_heap (close_at_log_end s), self_sessions (close_at_log_end s)))"

section \<open>Grace correlator\<close>

definition dfir_ids :: "string set" where
  "dfir_ids = {''4720'', ''4722'', ''4724'', ''4728'', ''4732'', ''4698'', ''7045'', ''1102''}"

definition is_dfir :: "event \<Rightarrow> bool" where
  "is_dfir ev = (case event_id ev of None \<Rightarrow> False | Some i \<Rightarrow> i \<in> dfir_ids)"

text \<open>
  The inner loop of lines 140-152 for one event \<open>r\<close> with time \<open>t\<close>: the sessions are
  scanned in list order; the first whose window holds \<open>t\<close> receives the event and
  the scan stops. The result is the session list and the tag written, if any.
\<close>

fun attach :: "ref \<Rightarrow> datetime \<Rightarrow> session list \<Rightarrow> py_error + session list \<times> string option" where
  "attach r t [] = Inr ([], None)"
| "attach r t (s # ss) =
     (case dt_sub_td (start_time s) GRACE_BEFORE of
        Inl e \<Rightarrow> Inl e
      | Inr w_start \<Rightarrow>
     (case dt_add_td (case end_time s of None \<Rightarrow> start_time s | Some e \<Rightarrow> e) GRACE_AFTER of
        Inl e \<Rightarrow> Inl e
      | Inr w_end \<Rightarrow>
     (case dt_le w_start t of
        Inl e \<Rightarrow> Inl e
      | Inr b1 \<Rightarrow>
     (case (if b1 then dt_le t w_end else Inr False) of
        Inl e \<Rightarrow> Inl e
      | Inr True \<Rightarrow>
          (case dt_lt t (start_time s) of
             Inl e \<Rightarrow> Inl e
           | Inr earlier \<Rightarrow>
               Inr (s\<lparr>events := events s @ [r]\<rparr> # ss,
                    Some (if earlier then ''grace_before'' else ''grace_after'')))
      | Inr False \<Rightarrow>
          (case attach r t ss of
             Inl e \<Rightarrow> Inl e
           | Inr (ss', tag) \<Rightarrow> Inr (s # ss', tag))))))"

text \<open>The outer loop of lines 135-152 over the administratively significant events.\<close>

fun grace_loop :: "ref list \<Rightarrow> heap \<times> session list \<Rightarrow> py_error + heap \<times> session list" where
  "grace_loop [] hs = Inr hs"
| "grace_loop (r # rs) (h, ss) =
     (case parsed_time (h r) of
        None \<Rightarrow> grace_loop rs (h, ss)
      | Some t \<Rightarrow>
          (case attach r t ss of
             Inl e \<Rightarrow> Inl e
           | Inr (ss', tag) \<Rightarrow>
               grace_loop rs
                 (case tag of
                    None \<Rightarrow> h
                  | Some c \<Rightarrow> h(r := (h r)\<lparr>correlation := Some c\<rparr>),
                  ss')))"

definition grace_pass :: "ref list \<Rightarrow> heap \<times> session list \<Rightarrow> py_error + heap \<times> session list" where
  "grace_pass line hs = grace_loop (filter (\<lambda>r. is_dfir (fst hs r)) line) hs"

text \<open>\<^verbatim>\<open>build_sessions\<close>: the session pass, then the grace pass over its result.\<close>

definition build_sessions :: "heap \<Rightarrow> builder \<Rightarrow> py_error + heap \<times> builder" where
  "build_sessions h self =
     (case session_pass h self of
        Inl e \<Rightarrow> Inl e
      | Inr hs \<Rightarrow>
          (case grace_pass (timeline self) hs of
             Inl e \<Rightarrow> Inl e
           | Inr (h', ss) \<Rightarrow> Inr (h', self\<lparr>sessions := ss\<rparr>)))"

section \<open>Concrete logs\<close>

text \<open>
  Small logs for the scenarios: events at a number of minutes after
  2026-01-01T00:00:00 UTC (day 739616 after \<^verbatim>\<open>datetime.min\<close>), stored at the addresses
  \<open>0, 1, 2, \<dots>\<close>.
\<close>

definition utc_at :: "int \<Rightarrow> datetime" where
  "utc_at m = Aware (739616 * 86400000000 + minutes m) 0"

definition mk_event :: "string \<Rightarrow> datetime option \<Rightarrow> event" where
  "mk_event i t =
     \<lparr>event_id = Some i, timestamp = None, parsed_time = t, details = Map.empty,
      correlation = None\<rparr>"

definition heap_of :: "event list \<Rightarrow> heap" where
  "heap_of xs r = (if r < length xs then xs ! r else mk_event [] None)"

definition tagged :: "string \<Rightarrow> event \<Rightarrow> event" where
  "tagged c ev = ev\<lparr>correlation := Some c\<rparr>"

definition mk_session ::
  "datetime \<Rightarrow> datetime option \<Rightarrow> string option \<Rightarrow> ref list \<Rightarrow> session" where
  "mk_session t e why rs =
     \<lparr>start_time = t, end_time = e, start_reason = ''lsm_session_start'', end_reason = why,
      user = None, source_ip = None, events = rs\<rparr>"

section \<open>Notions used in the statements\<close>

text \<open>An event record without its correlation tag: what no pass of the builder changes.\<close>

definition untag :: "event \<Rightarrow> event" where
  "untag ev = ev\<lparr>correlation := None\<rparr>"

text \<open>The sessions the scan holds: those already in the output list, then the open one.\<close>

definition all_sessions :: "scan_state \<Rightarrow> session list" where
  "all_sessions s =
     self_sessions s @ (case current_session s of None \<Rightarrow> [] | Some cs \<Rightarrow> [cs])"

text \<open>
  What a start marker with a parsed time opens: a session starting at that time whose
  first member is the marker itself. A session is opened by its start time and first member.
\<close>

definition start_marker :: "heap \<Rightarrow> ref \<Rightarrow> (datetime \<times> ref list) option" where
  "start_marker h r =
     (if event_id (h r) = Some ''21'' then map_option (\<lambda>t. (t, [r])) (parsed_time (h r))
      else None)"

definition opened_by :: "session \<Rightarrow> datetime \<times> ref list" where
  "opened_by x = (start_time x, take 1 (events x))"

text \<open>
  The extended window of a session, in the words of the specification: from five minutes
  before its start to fifteen minutes after its end, or after its start when it has no
  end.
\<close>

definition window_end :: "session \<Rightarrow> datetime" where
  "window_end s = (case end_time s of None \<Rightarrow> start_time s | Some e \<Rightarrow> e)"

definition in_window :: "datetime \<Rightarrow> session \<Rightarrow> bool" where
  "in_window t s =
     (instant (start_time s) - GRACE_BEFORE \<le> instant t
      \<and> instant t \<le> instant (window_end s) + GRACE_AFTER)"

text \<open>The position of the first element of a list that satisfies a predicate.\<close>

fun first_match :: "('a \<Rightarrow> bool) \<Rightarrow> 'a list \<Rightarrow> nat option" where
  "first_match P [] = None"
| "first_match P (x # xs) = (if P x then Some 0 else map_option Suc (first_match P xs))"

text \<open>The tag of an event correlated to a session: before its start, or not.\<close>

definition grace_label :: "datetime \<Rightarrow> session \<Rightarrow> string" where
  "grace_label t s =
     (if instant t < instant (start_time s) then ''grace_before'' else ''grace_after'')"

text \<open>Appending an event to the member list of a session.\<close>

definition add_member :: "ref \<Rightarrow> session \<Rightarrow> session" where
  "add_member r s = s\<lparr>events := events s @ [r]\<rparr>"

text \<open>
  The session the grace correlator is to choose for an event, by position in the list:
  the first whose extended window holds the parsed time of the event; none for an event
  without a parsed time or outside every window. With it, the tag the event is to get.
\<close>

definition grace_target :: "heap \<Rightarrow> session list \<Rightarrow> ref \<Rightarrow> nat option" where
  "grace_target h ss r =
     (case parsed_time (h r) of None \<Rightarrow> None | Some t \<Rightarrow> first_match (in_window t) ss)"

definition grace_tag :: "heap \<Rightarrow> session list \<Rightarrow> ref \<Rightarrow> string option" where
  "grace_tag h ss r =
     (case parsed_time (h r) of
        None \<Rightarrow> None
      | Some t \<Rightarrow> map_option (\<lambda>i. grace_label t (ss ! i)) (first_match (in_window t) ss))"

text \<open>Writing a tag, if there is one, into an event record.\<close>

definition retag :: "string option \<Rightarrow> event \<Rightarrow> event" where
  "retag tag ev = (case tag of None \<Rightarrow> ev | Some c \<Rightarrow> ev\<lparr>correlation := Some c\<rparr>)"

text \<open>
  What the grace loop over the events \<open>ds\<close> is to do to a heap and a session list:
  every session keeps its fields and receives, after its members, the events of \<open>ds\<close>
  whose target it is, in order; every event of \<open>ds\<close> with a target gets its tag, and
  nothing else changes.
\<close>

definition grace_result ::
  "ref list \<Rightarrow> heap \<times> session list \<Rightarrow> heap \<times> session list \<Rightarrow> bool" where
  "grace_result ds hs hs' =
     (length (snd hs') = length (snd hs)
      \<and> (\<forall>i<length (snd hs). snd hs' ! i =
            (snd hs ! i)\<lparr>events := events (snd hs ! i) @
               filter (\<lambda>r. grace_target (fst hs) (snd hs) r = Some i) ds\<rparr>)
      \<and> (\<forall>x. fst hs' x =
            (if x \<in> set ds then retag (grace_tag (fst hs) (snd hs) x) (fst hs x)
             else fst hs x)))"

text \<open>
  A log with administrative events around one session, as the session pass leaves it:
  a group change three minutes before the session starts, the session from 00:00 to
  00:10, an account creation at 00:20, a cleared log at 00:40 and a service installation
  without a timestamp; and what the grace pass makes of it.
\<close>

definition admin_log :: "event list" where
  "admin_log =
     [mk_event ''4732'' (Some (utc_at (- 3))),
      tagged ''in_session'' (mk_event ''21'' (Some (utc_at 0))),
      tagged ''in_session'' (mk_event ''4624'' (Some (utc_at 1))),
      tagged ''in_session'' (mk_event ''24'' (Some (utc_at 10))),
      mk_event ''4720'' (Some (utc_at 20)),
      mk_event ''1102'' (Some (utc_at 40)),
      mk_event ''7045'' None]"

definition admin_sessions :: "session list" where
  "admin_sessions = [mk_session (utc_at 0) (Some (utc_at 10)) (Some ''explicit_logoff'') [1, 2, 3]]"

definition admin_tagged :: heap where
  "admin_tagged =
     (heap_of admin_log)
       (0 := tagged ''grace_before'' (mk_event ''4732'' (Some (utc_at (- 3)))),
        4 := tagged ''grace_after'' (mk_event ''4720'' (Some (utc_at 20))))"

definition admin_correlated :: "session list" where
  "admin_correlated =
     [mk_session (utc_at 0) (Some (utc_at 10)) (Some ''explicit_logoff'') [1, 2, 3, 0, 4]]"

text \<open>A log whose first start marker has no parsed time.\<close>

definition unstamped_log :: "event list" where
  "unstamped_log =
     [mk_event ''21'' None, mk_event ''21'' (Some (utc_at 0)),
      mk_event ''4624'' (Some (utc_at 1)), mk_event ''21'' (Some (utc_at 5))]"

text \<open>Keys that Python can order against each other: all naive or all aware.\<close>

definition comparable :: "('a \<Rightarrow> datetime) \<Rightarrow> 'a list \<Rightarrow> bool" where
  "comparable k xs = (\<forall>x\<in>set xs. \<forall>y\<in>set xs. same_kind (k x) (k y))"

text \<open>
  A sorted timeline: no key is less than an earlier one, and every such comparison is
  defined. The key of an event without a parsed time is \<^verbatim>\<open>datetime.min\<close>.
\<close>

definition sorted_timeline :: "heap \<Rightarrow> ref list \<Rightarrow> bool" where
  "sorted_timeline h line =
     sorted_wrt (\<lambda>a b. dt_le (timeline_key h a) (timeline_key h b) = Inr True) line"

text \<open>
  An event whose parsed time the normaliser would not change: it has one, or parsing its
  timestamp yields none.
\<close>

definition settled :: "(string \<Rightarrow> datetime option) \<Rightarrow> heap \<Rightarrow> ref \<Rightarrow> bool" where
  "settled fromisoformat h r =
     (parsed_time (h r) = None \<longrightarrow> parse_timestamp fromisoformat (timestamp (h r)) = None)"

text \<open>An unsorted log stamped with naive times, two of them equal and one missing.\<close>

definition naive_log :: "event list" where
  "naive_log =
     [mk_event ''4624'' (Some (Naive 50)), mk_event ''4625'' None,
      mk_event ''21'' (Some (Naive 50)), mk_event ''1149'' (Some (Naive 10))]"

text \<open>
  A well-formed closed session: its end time is set and not before its start
  (\<^verbatim>\<open>start_time <= end_time\<close> evaluates to true), and its end reason is one of the four
  defined values.
\<close>

definition end_reasons :: "string set" where
  "end_reasons =
     {''explicit_logoff'', ''overlapping_session_start'', ''inactivity_timeout'',
      ''session_open_at_log_end''}"

definition well_formed_closed :: "session \<Rightarrow> bool" where
  "well_formed_closed x =
     ((case end_time x of None \<Rightarrow> False | Some e \<Rightarrow> dt_le (start_time x) e = Inr True)
      \<and> (case end_reason x of None \<Rightarrow> False | Some why \<Rightarrow> why \<in> end_reasons))"

text \<open>
  The parsed times of the events of a list that have one, in order, and what it means
  for such times to be in order.
\<close>

definition stamps :: "heap \<Rightarrow> ref list \<Rightarrow> datetime list" where
  "stamps h rs = List.map_filter (\<lambda>r. parsed_time (h r)) rs"

definition chain :: "datetime list \<Rightarrow> bool" where
  "chain ts = sorted_wrt (\<lambda>a b. dt_le a b = Inr True) ts"

text \<open>
  The invariant of the scan: the sessions in the output are well-formed and closed, the
  open session did not start after the last event time, and the last event time is not
  after the time of the event to come.
\<close>

definition closed_ok :: "scan_state \<Rightarrow> bool" where
  "closed_ok s = list_all well_formed_closed (self_sessions s)"

definition open_ok :: "scan_state \<Rightarrow> bool" where
  "open_ok s =
     (case current_session s of
        None \<Rightarrow> True
      | Some cs \<Rightarrow>
          (case last_event_time s of
             None \<Rightarrow> False
           | Some l \<Rightarrow> dt_le (start_time cs) l = Inr True))"

definition ahead :: "scan_state \<Rightarrow> datetime \<Rightarrow> bool" where
  "ahead s t = (case last_event_time s of None \<Rightarrow> True | Some l \<Rightarrow> dt_le l t = Inr True)"

text \<open>The member events of all sessions of a list, one member list after the other.\<close>

definition members :: "session list \<Rightarrow> ref list" where
  "members ss = concat (map events ss)"

text \<open>Scenario D: a group change at 00:03 inside a session from 00:00 to 00:10.\<close>

definition duplicate_log :: "event list" where
  "duplicate_log =
     [mk_event ''21'' (Some (utc_at 0)), mk_event ''4732'' (Some (utc_at 3)),
      mk_event ''24'' (Some (utc_at 10))]"

section \<open>Unfolding rules for concrete runs\<close>

lemmas example_defs = utc_at_def mk_event_def heap_of_def tagged_def mk_session_def

lemmas datetime_defs = dt_lt_def dt_le_def dt_sub_def dt_add_td_def dt_sub_td_def minutes_def
  datetime_min_def MAX_WALL_def GRACE_BEFORE_def GRACE_AFTER_def INACTIVITY_TIMEOUT_def

lemmas timeline_defs = build_timeline_def RDPTimelineBuilder_def timeline_key_def
  parse_timestamp_def

lemmas scan_defs = session_pass_def scan_start_def scan_step_def inactivity_check_def interpret_event_def
  close_at_log_end_def extract_user_def extract_ip_def py_or_def truthy_def Let_def

lemmas grace_defs = build_sessions_def grace_pass_def is_dfir_def dfir_ids_def

section \<open>The scan only ever appends to the output list\<close>

lemma inactivity_check_prefix:
  "inactivity_check t s = Inr s1 \<Longrightarrow> prefix (self_sessions s) (self_sessions s1)"
  by (auto simp: inactivity_check_def split: option.splits sum.splits if_splits)

lemma interpret_event_prefix:
  "prefix (self_sessions s) (self_sessions (interpret_event r t s))"
  by (auto simp: interpret_event_def Let_def split: option.splits)

lemma scan_step_prefix:
  "scan_step r s = Inr s' \<Longrightarrow> prefix (self_sessions s) (self_sessions s')"
  unfolding scan_step_def
  by (auto split: option.splits sum.splits
      intro: prefix_order.trans [OF inactivity_check_prefix interpret_event_prefix])

lemma scan_loop_prefix:
  "scan_loop rs s = Inr s' \<Longrightarrow> prefix (self_sessions s) (self_sessions s')"
proof (induction rs arbitrary: s)
  case Nil
  then show ?case by simp
next
  case (Cons r rs)
  then obtain s1 where step: "scan_step r s = Inr s1" and rest: "scan_loop rs s1 = Inr s'"
    by (auto split: sum.splits)
  from scan_step_prefix [OF step] Cons.IH [OF rest] show ?case
    by (rule prefix_order.trans)
qed

section \<open>Claims about single steps of the session builder\<close>

text \<open>
  C3. The claim: for every collection of event records, also one that mixes events with
  parseable timestamps and events without, \<^verbatim>\<open>build_timeline\<close> followed by
  \<^verbatim>\<open>build_sessions\<close> raises no error. The code does raise: a log holding one event
  stamped in UTC (an aware datetime, as the trailing \<^verbatim>\<open>Z\<close> gives) and one event without
  a timestamp makes \<^verbatim>\<open>sorted\<close> compare the aware time with the naive
  \<^verbatim>\<open>datetime.min\<close> that stands in for the missing one, which is a \<^verbatim>\<open>TypeError\<close>.
\<close>

theorem build_timeline_mixed_raises:
  "build_timeline fromisoformat
     (heap_of [mk_event ''21'' (Some (utc_at 0)), mk_event ''4624'' None])
     (RDPTimelineBuilder [0, 1]) = Inl TypeError"
  by (simp add: timeline_defs example_defs datetime_defs)

text \<open>
  C5. When a session is open and the time of the current event exceeds the last event
  time by more than 60 minutes, the step first closes the open session with the last
  event time as its end and the reason \<^verbatim>\<open>inactivity_timeout\<close>, appends it to the
  output list, where it stays, and only then interprets the event. Scenario B: the log
  \<open>21@00:00, 4624@00:01, 4624@02:00\<close> yields one session that ends at 00:01 for inactivity.
\<close>

theorem inactivity_timeout_closes_session:
  assumes "parsed_time (event_heap s r) = Some t"
    and "current_session s = Some cs"
    and "last_event_time s = Some l"
    and "same_kind t l"
    and "instant t - instant l > INACTIVITY_TIMEOUT"
  shows "scan_step r s =
           Inr (interpret_event r t
             (s\<lparr>current_session := None,
                self_sessions := self_sessions s @
                  [cs\<lparr>end_time := Some l, end_reason := Some ''inactivity_timeout''\<rparr>]\<rparr>))
       \<and> (\<forall>rs s'. scan_loop (r # rs) s = Inr s' \<longrightarrow>
             prefix (self_sessions s @
                  [cs\<lparr>end_time := Some l, end_reason := Some ''inactivity_timeout''\<rparr>])
               (self_sessions s'))
       \<and> (case build_timeline fromisoformat
                 (heap_of [mk_event ''21'' (Some (utc_at 0)), mk_event ''4624'' (Some (utc_at 1)),
                           mk_event ''4624'' (Some (utc_at 120))])
                 (RDPTimelineBuilder [0, 1, 2]) of
             Inl e \<Rightarrow> Inl e
           | Inr (h, b) \<Rightarrow> map_sum id (sessions \<circ> snd) (build_sessions h b))
          = Inr [mk_session (utc_at 0) (Some (utc_at 1)) (Some ''inactivity_timeout'') [0, 1]]"
proof -
  let ?closed = "cs\<lparr>end_time := Some l, end_reason := Some ''inactivity_timeout''\<rparr>"
  let ?s1 = "s\<lparr>current_session := None, self_sessions := self_sessions s @ [?closed]\<rparr>"
  have check: "inactivity_check t s = Inr ?s1"
    using assms by (simp add: inactivity_check_def dt_sub_def)
  have step: "scan_step r s = Inr (interpret_event r t ?s1)"
    using assms(1) check by (simp add: scan_step_def)
  have stays: "prefix (self_sessions s @ [?closed]) (self_sessions s')"
    if "scan_loop (r # rs) s = Inr s'" for rs s'
  proof -
    from that step have "scan_loop rs (interpret_event r t ?s1) = Inr s'"
      by simp
    from interpret_event_prefix [of ?s1 r t] scan_loop_prefix [OF this]
    have "prefix (self_sessions ?s1) (self_sessions s')"
      by (rule prefix_order.trans)
    then show ?thesis by simp
  qed
  have scenario:
    "(case build_timeline fromisoformat
             (heap_of [mk_event ''21'' (Some (utc_at 0)), mk_event ''4624'' (Some (utc_at 1)),
                       mk_event ''4624'' (Some (utc_at 120))])
             (RDPTimelineBuilder [0, 1, 2]) of
         Inl e \<Rightarrow> Inl e
       | Inr (h, b) \<Rightarrow> map_sum id (sessions \<circ> snd) (build_sessions h b))
      = Inr [mk_session (utc_at 0) (Some (utc_at 1)) (Some ''inactivity_timeout'') [0, 1]]"
    by (simp add: timeline_defs example_defs datetime_defs scan_defs grace_defs)
  show ?thesis
  proof (intro conjI allI impI)
    show "scan_step r s = Inr (interpret_event r t ?s1)" by (rule step)
  next
    fix rs s'
    assume "scan_loop (r # rs) s = Inr s'"
    then show "prefix (self_sessions s @ [?closed]) (self_sessions s')" by (rule stays)
  next
    show "(case build_timeline fromisoformat
             (heap_of [mk_event ''21'' (Some (utc_at 0)), mk_event ''4624'' (Some (utc_at 1)),
                       mk_event ''4624'' (Some (utc_at 120))])
             (RDPTimelineBuilder [0, 1, 2]) of
         Inl e \<Rightarrow> Inl e
       | Inr (h, b) \<Rightarrow> map_sum id (sessions \<circ> snd) (build_sessions h b))
      = Inr [mk_session (utc_at 0) (Some (utc_at 1)) (Some ''inactivity_timeout'') [0, 1]]"
      by (rule scenario)
  qed
qed

theorem inactivity_timeout_closes_session_witness:
  "scan_step 2
     \<lparr>current_session = Some (mk_session (utc_at 0) None None [0, 1]),
      last_event_time = Some (utc_at 1), self_sessions = [],
      event_heap = heap_of [mk_event ''21'' (Some (utc_at 0)),
        mk_event ''4624'' (Some (utc_at 1)), mk_event ''4624'' (Some (utc_at 120))]\<rparr>
   = Inr
     \<lparr>current_session = None, last_event_time = Some (utc_at 120),
      self_sessions = [mk_session (utc_at 0) (Some (utc_at 1)) (Some ''inactivity_timeout'') [0, 1]],
      event_heap = heap_of [mk_event ''21'' (Some (utc_at 0)),
        mk_event ''4624'' (Some (utc_at 1)), mk_event ''4624'' (Some (utc_at 120))]\<rparr>"
proof -
  let ?h = "heap_of [mk_event ''21'' (Some (utc_at 0)),
        mk_event ''4624'' (Some (utc_at 1)), mk_event ''4624'' (Some (utc_at 120))]"
  let ?s = "\<lparr>current_session = Some (mk_session (utc_at 0) None None [0, 1]),
      last_event_time = Some (utc_at 1), self_sessions = [], event_heap = ?h\<rparr>"
  have h1: "parsed_time (event_heap ?s 2) = Some (utc_at 120)"
    by (simp add: example_defs)
  have h2: "current_session ?s = Some (mk_session (utc_at 0) None None [0, 1])"
    by simp
  have h3: "last_event_time ?s = Some (utc_at 1)"
    by simp
  have h4: "same_kind (utc_at 120) (utc_at 1)"
    by (simp add: example_defs)
  have h5: "instant (utc_at 120) - instant (utc_at 1) > INACTIVITY_TIMEOUT"
    by (simp add: example_defs datetime_defs)
  from inactivity_timeout_closes_session [OF h1 h2 h3 h4 h5, THEN conjunct1]
  show ?thesis
    by (simp add: example_defs scan_defs)
qed

section \<open>What the scan leaves unchanged\<close>

lemma untag_fields:
  "untag a = untag b \<Longrightarrow>
     event_id a = event_id b \<and> parsed_time a = parsed_time b \<and> timestamp a = timestamp b
     \<and> details a = details b"
  unfolding untag_def by (cases a, cases b) simp

lemma inactivity_check_heap:
  "inactivity_check t s = Inr s1 \<Longrightarrow> event_heap s1 = event_heap s"
  by (auto simp: inactivity_check_def split: option.splits sum.splits if_splits)

lemma interpret_event_untag:
  "untag (event_heap (interpret_event r t s) x) = untag (event_heap s x)"
  by (auto simp: interpret_event_def Let_def untag_def split: option.splits)

lemma scan_step_untag:
  "scan_step r s = Inr s' \<Longrightarrow> untag (event_heap s' x) = untag (event_heap s x)"
  unfolding scan_step_def
  by (auto split: option.splits sum.splits simp: interpret_event_untag inactivity_check_heap)

lemma scan_loop_untag:
  "scan_loop rs s = Inr s' \<Longrightarrow> untag (event_heap s' x) = untag (event_heap s x)"
proof (induction rs arbitrary: s)
  case Nil
  then show ?case by simp
next
  case (Cons r rs)
  then obtain s1 where step: "scan_step r s = Inr s1" and rest: "scan_loop rs s1 = Inr s'"
    by (auto split: sum.splits)
  from Cons.IH [OF rest] scan_step_untag [OF step] show ?case by simp
qed

lemma scan_loop_append:
  "scan_loop (xs @ ys) s =
     (case scan_loop xs s of Inl e \<Rightarrow> Inl e | Inr s' \<Rightarrow> scan_loop ys s')"
  by (induction xs arbitrary: s) (auto split: sum.splits)

text \<open>
  C6. When a start marker with a time is processed while a session is open that the
  inactivity check has not closed, the step closes the open session at the marker's time
  with the reason \<^verbatim>\<open>overlapping_session_start\<close>, appends it to the output, and opens a
  new session that starts at the marker's time and holds the marker, tagged
  \<^verbatim>\<open>in_session\<close>, as its only member. Scenario C: the log \<open>21@00:00, 21@00:05\<close> yields
  two sessions, the first closed at 00:05 by the overlapping start.
\<close>

theorem overlapping_start_closes_then_opens:
  assumes "parsed_time (event_heap s r) = Some t"
    and "event_id (event_heap s r) = Some ''21''"
    and "current_session s = Some cs"
    and "last_event_time s = Some l"
    and "same_kind t l"
    and "instant t - instant l \<le> INACTIVITY_TIMEOUT"
  shows "scan_step r s =
           Inr \<lparr>current_session = Some
                  \<lparr>start_time = t, end_time = None, start_reason = ''lsm_session_start'',
                   end_reason = None, user = extract_user (details (event_heap s r)),
                   source_ip = extract_ip (details (event_heap s r)), events = [r]\<rparr>,
                last_event_time = Some t,
                self_sessions = self_sessions s @
                  [cs\<lparr>end_time := Some t, end_reason := Some ''overlapping_session_start''\<rparr>],
                event_heap = (event_heap s)
                  (r := (event_heap s r)\<lparr>correlation := Some ''in_session''\<rparr>)\<rparr>
       \<and> (case build_timeline fromisoformat
                 (heap_of [mk_event ''21'' (Some (utc_at 0)), mk_event ''21'' (Some (utc_at 5))])
                 (RDPTimelineBuilder [0, 1]) of
             Inl e \<Rightarrow> Inl e
           | Inr (h, b) \<Rightarrow> map_sum id (sessions \<circ> snd) (build_sessions h b))
          = Inr [mk_session (utc_at 0) (Some (utc_at 5)) (Some ''overlapping_session_start'') [0],
                 mk_session (utc_at 5) (Some (utc_at 5)) (Some ''session_open_at_log_end'') [1]]"
proof (intro conjI)
  have check: "inactivity_check t s = Inr s"
    using assms by (simp add: inactivity_check_def dt_sub_def)
  show "scan_step r s =
           Inr \<lparr>current_session = Some
                  \<lparr>start_time = t, end_time = None, start_reason = ''lsm_session_start'',
                   end_reason = None, user = extract_user (details (event_heap s r)),
                   source_ip = extract_ip (details (event_heap s r)), events = [r]\<rparr>,
                last_event_time = Some t,
                self_sessions = self_sessions s @
                  [cs\<lparr>end_time := Some t, end_reason := Some ''overlapping_session_start''\<rparr>],
                event_heap = (event_heap s)
                  (r := (event_heap s r)\<lparr>correlation := Some ''in_session''\<rparr>)\<rparr>"
    using assms(1,2,3) check by (simp add: scan_step_def interpret_event_def Let_def)
next
  show "(case build_timeline fromisoformat
                 (heap_of [mk_event ''21'' (Some (utc_at 0)), mk_event ''21'' (Some (utc_at 5))])
                 (RDPTimelineBuilder [0, 1]) of
             Inl e \<Rightarrow> Inl e
           | Inr (h, b) \<Rightarrow> map_sum id (sessions \<circ> snd) (build_sessions h b))
          = Inr [mk_session (utc_at 0) (Some (utc_at 5)) (Some ''overlapping_session_start'') [0],
                 mk_session (utc_at 5) (Some (utc_at 5)) (Some ''session_open_at_log_end'') [1]]"
    by (simp add: timeline_defs example_defs datetime_defs scan_defs grace_defs)
qed

theorem overlapping_start_closes_then_opens_witness:
  "scan_step 1
     \<lparr>current_session = Some (mk_session (utc_at 0) None None [0]),
      last_event_time = Some (utc_at 0), self_sessions = [],
      event_heap = heap_of [tagged ''in_session'' (mk_event ''21'' (Some (utc_at 0))),
        mk_event ''21'' (Some (utc_at 5))]\<rparr>
   = Inr
     \<lparr>current_session = Some (mk_session (utc_at 5) None None [1]),
      last_event_time = Some (utc_at 5),
      self_sessions =
        [mk_session (utc_at 0) (Some (utc_at 5)) (Some ''overlapping_session_start'') [0]],
      event_heap = (heap_of [tagged ''in_session'' (mk_event ''21'' (Some (utc_at 0))),
        mk_event ''21'' (Some (utc_at 5))])
          (1 := tagged ''in_session'' (mk_event ''21'' (Some (utc_at 5))))\<rparr>"
proof -
  let ?h = "heap_of [tagged ''in_session'' (mk_event ''21'' (Some (utc_at 0))),
        mk_event ''21'' (Some (utc_at 5))]"
  let ?s = "\<lparr>current_session = Some (mk_session (utc_at 0) None None [0]),
      last_event_time = Some (utc_at 0), self_sessions = [], event_heap = ?h\<rparr>"
  have h1: "parsed_time (event_heap ?s 1) = Some (utc_at 5)"
    by (simp add: example_defs)
  have h2: "event_id (event_heap ?s 1) = Some ''21''"
    by (simp add: example_defs)
  have h3: "current_session ?s = Some (mk_session (utc_at 0) None None [0])"
    by simp
  have h4: "last_event_time ?s = Some (utc_at 0)"
    by simp
  have h5: "same_kind (utc_at 5) (utc_at 0)"
    by (simp add: example_defs)
  have h6: "instant (utc_at 5) - instant (utc_at 0) \<le> INACTIVITY_TIMEOUT"
    by (simp add: example_defs datetime_defs)
  from overlapping_start_closes_then_opens [OF h1 h2 h3 h4 h5 h6, THEN conjunct1]
  show ?thesis
    by (simp add: example_defs extract_user_def extract_ip_def py_or_def truthy_def)
qed

text \<open>
  C4 as stated fails: a start marker without a parsed time is skipped by the scan
  (lines 56-57), so a log that holds only such a marker yields no session.
\<close>

theorem start_marker_without_time_opens_nothing:
  "(case build_timeline (\<lambda>ts. None) (heap_of [mk_event ''21'' None]) (RDPTimelineBuilder [0]) of
      Inl e \<Rightarrow> Inl e
    | Inr (h, b) \<Rightarrow> map_sum id (sessions \<circ> snd) (build_sessions h b)) = Inr []"
  by (simp add: timeline_defs example_defs datetime_defs scan_defs grace_defs)

section \<open>Sessions opened by the scan\<close>

lemma all_sessions_inactivity_check:
  assumes "inactivity_check t s = Inr s1"
  shows "map events (all_sessions s1) = map events (all_sessions s)"
    and "map start_time (all_sessions s1) = map start_time (all_sessions s)"
  using assms
  by (auto simp: inactivity_check_def all_sessions_def split: option.splits sum.splits if_splits)

lemma opened_by_inactivity_check:
  "inactivity_check t s = Inr s1 \<Longrightarrow>
     map opened_by (all_sessions s1) = map opened_by (all_sessions s)"
  by (auto simp: inactivity_check_def all_sessions_def opened_by_def
      split: option.splits sum.splits if_splits)

lemma events_inactivity_check:
  assumes "inactivity_check t s = Inr s1"
  shows "events ` set (all_sessions s1) = events ` set (all_sessions s)"
proof -
  have "set (map events (all_sessions s1)) = set (map events (all_sessions s))"
    by (simp only: all_sessions_inactivity_check(1) [OF assms])
  then show ?thesis by (simp only: set_map)
qed

lemma take1_append:
  "xs \<noteq> [] \<Longrightarrow> take (Suc 0) (xs @ ys) = take (Suc 0) xs"
  by (cases xs) simp_all

lemma opened_by_interpret_event:
  assumes "\<forall>x\<in>set (all_sessions s). events x \<noteq> []"
    and "parsed_time (event_heap s r) = Some t"
  shows "map opened_by (all_sessions (interpret_event r t s)) =
           map opened_by (all_sessions s) @
             (case start_marker (event_heap s) r of None \<Rightarrow> [] | Some p \<Rightarrow> [p])"
    and "\<forall>x\<in>set (all_sessions (interpret_event r t s)). events x \<noteq> []"
  using assms
  by (auto simp: interpret_event_def Let_def all_sessions_def opened_by_def start_marker_def
      Suc_le_eq split: option.splits)

lemma opened_by_scan_step:
  assumes "scan_step r s = Inr s'"
    and "\<forall>x\<in>set (all_sessions s). events x \<noteq> []"
  shows "map opened_by (all_sessions s') =
           map opened_by (all_sessions s) @
             (case start_marker (event_heap s) r of None \<Rightarrow> [] | Some p \<Rightarrow> [p])
         \<and> (\<forall>x\<in>set (all_sessions s'). events x \<noteq> [])"
proof (cases "parsed_time (event_heap s r)")
  case None
  with assms show ?thesis by (simp add: scan_step_def start_marker_def)
next
  case (Some t)
  with assms(1) obtain s1 where check: "inactivity_check t s = Inr s1"
    and s': "s' = interpret_event r t s1"
    by (auto simp: scan_step_def split: sum.splits)
  have heap: "event_heap s1 = event_heap s"
    by (rule inactivity_check_heap [OF check])
  have ne: "\<forall>x\<in>set (all_sessions s1). events x \<noteq> []"
  proof
    fix x assume "x \<in> set (all_sessions s1)"
    then have "events x \<in> events ` set (all_sessions s)"
      using events_inactivity_check [OF check] by blast
    with assms(2) show "events x \<noteq> []" by auto
  qed
  have pt: "parsed_time (event_heap s1 r) = Some t"
    using Some heap by simp
  show ?thesis
    using opened_by_interpret_event [OF ne pt] opened_by_inactivity_check [OF check]
    by (simp add: s' heap)
qed

lemma start_marker_untag:
  assumes "\<And>x. untag (h' x) = untag (h x)"
  shows "start_marker h' = start_marker h"
proof (rule ext)
  fix r
  from untag_fields [OF assms [of r]] show "start_marker h' r = start_marker h r"
    by (simp add: start_marker_def)
qed

lemma opened_by_scan_loop:
  assumes "scan_loop rs s = Inr s'"
    and "\<forall>x\<in>set (all_sessions s). events x \<noteq> []"
  shows "map opened_by (all_sessions s') =
           map opened_by (all_sessions s) @ List.map_filter (start_marker (event_heap s)) rs
         \<and> (\<forall>x\<in>set (all_sessions s'). events x \<noteq> [])"
  using assms
proof (induction rs arbitrary: s)
  case Nil
  then show ?case by simp
next
  case (Cons r rs)
  from Cons.prems(1) obtain s1 where step: "scan_step r s = Inr s1"
    and rest: "scan_loop rs s1 = Inr s'"
    by (auto split: sum.splits)
  note one = opened_by_scan_step [OF step Cons.prems(2)]
  have same: "start_marker (event_heap s1) = start_marker (event_heap s)"
    by (rule start_marker_untag) (rule scan_step_untag [OF step])
  from one have ne1: "\<forall>x\<in>set (all_sessions s1). events x \<noteq> []" by (rule conjunct2)
  from Cons.IH [OF rest ne1] one same show ?case
    by (simp split: option.splits)
qed

section \<open>The grace correlator chooses the first window\<close>

lemma instant_shift [simp]: "instant (shift a d) = instant a + d"
  by (cases a) simp_all

lemma same_kind_shift_left [simp]: "same_kind (shift a d) b = same_kind a b"
  by (cases a; cases b) simp_all

lemma same_kind_shift_right [simp]: "same_kind a (shift b d) = same_kind a b"
  by (cases a; cases b) simp_all

lemma dt_add_td_Inr: "dt_add_td a d = Inr w \<Longrightarrow> w = shift a d"
  by (simp add: dt_add_td_def split: if_splits)

lemma dt_sub_td_Inr: "dt_sub_td a d = Inr w \<Longrightarrow> w = shift a (- d)"
  by (simp add: dt_sub_td_def dt_add_td_Inr)

lemma dt_le_Inr: "dt_le a b = Inr x \<Longrightarrow> same_kind a b \<and> x = (instant a \<le> instant b)"
  by (simp add: dt_le_def split: if_splits)

lemma dt_lt_Inr: "dt_lt a b = Inr x \<Longrightarrow> same_kind a b \<and> x = (instant a < instant b)"
  by (simp add: dt_lt_def split: if_splits)

lemma attach_Cons_cases:
  assumes "attach r t (s # ss) = Inr res"
  shows "(in_window t s \<and> res = (add_member r s # ss, Some (grace_label t s)))
       \<or> (\<not> in_window t s \<and> (\<exists>ss' tag. attach r t ss = Inr (ss', tag) \<and> res = (s # ss', tag)))"
proof -
  from assms obtain ws where ws: "dt_sub_td (start_time s) GRACE_BEFORE = Inr ws"
    by (cases "dt_sub_td (start_time s) GRACE_BEFORE") simp_all
  from assms ws obtain we where we: "dt_add_td (window_end s) GRACE_AFTER = Inr we"
    by (cases "dt_add_td (window_end s) GRACE_AFTER") (simp_all add: window_end_def)
  from assms ws we obtain b1 where b1: "dt_le ws t = Inr b1"
    by (cases "dt_le ws t") (simp_all add: window_end_def)
  from assms ws we b1 obtain b2 where b2: "(if b1 then dt_le t we else Inr False) = Inr b2"
    by (cases "if b1 then dt_le t we else Inr False") (simp_all add: window_end_def)
  have body: "(case b2 of
        True \<Rightarrow> (case dt_lt t (start_time s) of
             Inl e \<Rightarrow> Inl e
           | Inr earlier \<Rightarrow>
               Inr (s\<lparr>events := events s @ [r]\<rparr> # ss,
                    Some (if earlier then ''grace_before'' else ''grace_after'')))
      | False \<Rightarrow> (case attach r t ss of
             Inl e \<Rightarrow> Inl e
           | Inr (ss', tag) \<Rightarrow> Inr (s # ss', tag))) = Inr res"
    using assms ws we b1 b2 by (simp add: window_end_def)
  have ws_eq: "ws = shift (start_time s) (- GRACE_BEFORE)"
    by (rule dt_sub_td_Inr [OF ws])
  have we_eq: "we = shift (window_end s) GRACE_AFTER"
    by (rule dt_add_td_Inr [OF we])
  have b1_eq: "b1 = (instant (start_time s) - GRACE_BEFORE \<le> instant t)"
    using dt_le_Inr [OF b1] by (simp add: ws_eq)
  have b2_eq: "b2 = in_window t s"
  proof (cases b1)
    case True
    with b2 have "dt_le t we = Inr b2" by simp
    from dt_le_Inr [OF this] True b1_eq show ?thesis
      by (simp add: we_eq in_window_def)
  next
    case False
    with b2 b1_eq show ?thesis by (simp add: in_window_def)
  qed
  show ?thesis
  proof (cases b2)
    case True
    with body obtain earlier where e: "dt_lt t (start_time s) = Inr earlier"
      and res: "res = (s\<lparr>events := events s @ [r]\<rparr> # ss,
                    Some (if earlier then ''grace_before'' else ''grace_after''))"
      by (cases "dt_lt t (start_time s)") auto
    from dt_lt_Inr [OF e] res True b2_eq show ?thesis
      by (simp add: add_member_def grace_label_def)
  next
    case False
    with body obtain ss' tag where "attach r t ss = Inr (ss', tag)" "res = (s # ss', tag)"
      by (cases "attach r t ss") auto
    with False b2_eq show ?thesis by simp
  qed
qed

lemma attach_first_match:
  assumes "attach r t ss = Inr (ss', tag)"
  shows "case first_match (in_window t) ss of
           None \<Rightarrow> ss' = ss \<and> tag = None
         | Some i \<Rightarrow> i < length ss \<and> in_window t (ss ! i)
             \<and> ss' = ss[i := add_member r (ss ! i)] \<and> tag = Some (grace_label t (ss ! i))"
  using assms
proof (induction ss arbitrary: ss' tag)
  case Nil
  then show ?case by simp
next
  case (Cons s ss)
  from attach_Cons_cases [OF Cons.prems] show ?case
  proof (elim disjE conjE exE)
    assume "in_window t s" "(ss', tag) = (add_member r s # ss, Some (grace_label t s))"
    then show ?thesis by simp
  next
    fix ss1 tag1
    assume out: "\<not> in_window t s" and rest: "attach r t ss = Inr (ss1, tag1)"
      and res: "(ss', tag) = (s # ss1, tag1)"
    from Cons.IH [OF rest] out res show ?thesis
      by (auto split: option.splits)
  qed
qed

lemma in_window_add_member [simp]: "in_window t (add_member r s) = in_window t s"
  by (simp add: in_window_def add_member_def window_end_def split: option.splits)

lemma grace_label_add_member [simp]: "grace_label t (add_member r s) = grace_label t s"
  by (simp add: grace_label_def add_member_def)

lemma first_match_add_member:
  "first_match (in_window t) (ss[i := add_member r (ss ! i)]) = first_match (in_window t) ss"
proof (induction ss arbitrary: i)
  case Nil
  then show ?case by simp
next
  case (Cons s ss)
  then show ?case by (cases i) simp_all
qed

lemma grace_label_nth_add_member:
  "grace_label t (ss[i := add_member r (ss ! i)] ! j) = grace_label t (ss ! j)"
proof (cases "j = i \<and> i < length ss")
  case True
  then show ?thesis by simp
next
  case False
  then have "ss[i := add_member r (ss ! i)] ! j = ss ! j"
    by (cases "j = i") (simp_all add: list_update_beyond)
  then show ?thesis by simp
qed

lemma first_match_less: "first_match P xs = Some i \<Longrightarrow> i < length xs"
  by (induction xs arbitrary: i) (auto split: if_splits)

lemma grace_target_update:
  "grace_target (h(r := (h r)\<lparr>correlation := c\<rparr>)) (ss[i := add_member r' (ss ! i)])
     = grace_target h ss"
  by (rule ext) (simp add: grace_target_def first_match_add_member split: option.splits)

lemma grace_tag_update:
  "grace_tag (h(r := (h r)\<lparr>correlation := c\<rparr>)) (ss[i := add_member r' (ss ! i)])
     = grace_tag h ss"
  by (rule ext)
    (simp add: grace_tag_def first_match_add_member grace_label_nth_add_member
      split: option.splits)

lemma grace_result_Nil: "grace_result [] hs hs"
  by (simp add: grace_result_def)

lemma grace_result_skip:
  assumes "parsed_time (h r) = None" and "grace_result rs (h, ss) hs'"
  shows "grace_result (r # rs) (h, ss) hs'"
proof -
  have t: "grace_target h ss r = None" and g: "grace_tag h ss r = None"
    using assms(1) by (simp_all add: grace_target_def grace_tag_def)
  show ?thesis
    using assms(2) t g unfolding grace_result_def
    by (simp add: retag_def)
qed

lemma grace_result_miss:
  assumes "parsed_time (h r) = Some t" and "first_match (in_window t) ss = None"
    and "grace_result rs (h, ss) hs'"
  shows "grace_result (r # rs) (h, ss) hs'"
proof -
  have t: "grace_target h ss r = None" and g: "grace_tag h ss r = None"
    using assms(1,2) by (simp_all add: grace_target_def grace_tag_def)
  show ?thesis
    using assms(3) t g unfolding grace_result_def
    by (simp add: retag_def)
qed

lemma grace_result_hit:
  assumes pt: "parsed_time (h r) = Some t"
    and fm: "first_match (in_window t) ss = Some i0"
    and rest: "grace_result rs
        (h(r := (h r)\<lparr>correlation := Some (grace_label t (ss ! i0))\<rparr>),
         ss[i0 := add_member r (ss ! i0)]) hs'"
  shows "grace_result (r # rs) (h, ss) hs'"
proof -
  let ?c = "grace_label t (ss ! i0)"
  let ?h1 = "h(r := (h r)\<lparr>correlation := Some ?c\<rparr>)"
  let ?ss1 = "ss[i0 := add_member r (ss ! i0)]"
  have i0: "i0 < length ss" by (rule first_match_less [OF fm])
  have tr: "grace_target h ss r = Some i0" and gr: "grace_tag h ss r = Some ?c"
    using pt fm by (simp_all add: grace_target_def grace_tag_def)
  have T: "grace_target ?h1 ?ss1 = grace_target h ss" by (rule grace_target_update)
  have G: "grace_tag ?h1 ?ss1 = grace_tag h ss" by (rule grace_tag_update)
  from rest have len: "length (snd hs') = length ss"
    and nth: "\<forall>i<length ss. snd hs' ! i =
            (?ss1 ! i)\<lparr>events := events (?ss1 ! i) @
               filter (\<lambda>r. grace_target h ss r = Some i) rs\<rparr>"
    and heap: "\<forall>x. fst hs' x =
            (if x \<in> set rs then retag (grace_tag h ss x) (?h1 x) else ?h1 x)"
    unfolding grace_result_def by (simp_all add: T G)
  have nth': "snd hs' ! i =
            (ss ! i)\<lparr>events := events (ss ! i) @
               filter (\<lambda>r. grace_target h ss r = Some i) (r # rs)\<rparr>" if "i < length ss" for i
  proof (cases "i = i0")
    case True
    with nth that tr show ?thesis by (simp add: add_member_def)
  next
    case False
    with nth that tr show ?thesis by simp
  qed
  have heap': "fst hs' x =
            (if x \<in> set (r # rs) then retag (grace_tag h ss x) (h x) else h x)" for x
  proof (cases "x = r")
    case True
    with heap gr show ?thesis by (simp add: retag_def)
  next
    case False
    with heap show ?thesis by simp
  qed
  show ?thesis
    unfolding grace_result_def using len nth' heap' by simp
qed

lemma grace_loop_result:
  "grace_loop ds (h, ss) = Inr hs' \<Longrightarrow> grace_result ds (h, ss) hs'"
proof (induction ds arbitrary: h ss)
  case Nil
  then show ?case by (simp add: grace_result_Nil)
next
  case (Cons r rs)
  show ?case
  proof (cases "parsed_time (h r)")
    case None
    with Cons.prems have "grace_loop rs (h, ss) = Inr hs'" by simp
    from grace_result_skip [OF None Cons.IH [OF this]] show ?thesis .
  next
    case (Some t)
    with Cons.prems obtain ss1 tag where att: "attach r t ss = Inr (ss1, tag)"
      and rest: "grace_loop rs
                 (case tag of None \<Rightarrow> h | Some c \<Rightarrow> h(r := (h r)\<lparr>correlation := Some c\<rparr>), ss1)
                 = Inr hs'"
      by (cases "attach r t ss") auto
    show ?thesis
    proof (cases "first_match (in_window t) ss")
      case None
      with attach_first_match [OF att] have "ss1 = ss" "tag = None" by simp_all
      with rest have "grace_loop rs (h, ss) = Inr hs'" by simp
      from grace_result_miss [OF Some None Cons.IH [OF this]] show ?thesis .
    next
      case (Some i0)
      with attach_first_match [OF att]
      have "ss1 = ss[i0 := add_member r (ss ! i0)]" "tag = Some (grace_label t (ss ! i0))"
        by simp_all
      with rest have "grace_loop rs
          (h(r := (h r)\<lparr>correlation := Some (grace_label t (ss ! i0))\<rparr>),
           ss[i0 := add_member r (ss ! i0)]) = Inr hs'" by simp
      from grace_result_hit [OF \<open>parsed_time (h r) = Some t\<close> Some Cons.IH [OF this]]
      show ?thesis .
    qed
  qed
qed

lemmas window_defs = grace_target_def grace_tag_def in_window_def window_end_def
  grace_label_def add_member_def retag_def

lemmas admin_defs = admin_log_def admin_sessions_def admin_tagged_def admin_correlated_def

section \<open>Claims about the grace correlator\<close>

lemma grace_pass_result:
  "grace_pass line (h, ss) = Inr hs' \<Longrightarrow>
     grace_result (filter (\<lambda>r. is_dfir (h r)) line) (h, ss) hs'"
  unfolding grace_pass_def by (simp add: grace_loop_result)

lemma grace_target_Some_time:
  "grace_target h ss r = Some i \<Longrightarrow> parsed_time (h r) \<noteq> None"
  by (auto simp: grace_target_def split: option.splits)

lemma untag_retag [simp]: "untag (retag c ev) = untag ev"
  by (simp add: untag_def retag_def split: option.splits)

lemma correlation_retag:
  "correlation (retag c ev) = (case c of None \<Rightarrow> correlation ev | Some x \<Rightarrow> Some x)"
  by (simp add: retag_def split: option.splits)

text \<open>
  C7. The grace correlator attaches every administratively significant event that has a
  parsed time to the first session, in list order, whose extended window
  \<open>[start_time - 5 minutes, (end_time or start_time) + 15 minutes]\<close> holds that time, and to
  no other session; the event is tagged \<^verbatim>\<open>grace_before\<close> exactly when its time is
  strictly before the start of that session, and \<^verbatim>\<open>grace_after\<close> otherwise; an event
  in no window is attached nowhere and keeps its tag. Stated for a grace pass that
  returns: every session receives, after its members, exactly the events whose target it
  is, in timeline order.
\<close>

theorem grace_correlator_first_window:
  assumes "grace_pass line (h, ss) = Inr (h', ss')"
  shows "length ss' = length ss
       \<and> (\<forall>i<length ss. events (ss' ! i) =
             events (ss ! i) @
               filter (\<lambda>r. grace_target h ss r = Some i) (filter (\<lambda>r. is_dfir (h r)) line))
       \<and> (\<forall>r\<in>set line. is_dfir (h r) \<longrightarrow>
             correlation (h' r) =
               (case grace_tag h ss r of None \<Rightarrow> correlation (h r) | Some c \<Rightarrow> Some c))"
proof -
  from grace_pass_result [OF assms]
  have len: "length ss' = length ss"
    and nth: "\<forall>i<length ss. ss' ! i =
            (ss ! i)\<lparr>events := events (ss ! i) @
               filter (\<lambda>r. grace_target h ss r = Some i) (filter (\<lambda>r. is_dfir (h r)) line)\<rparr>"
    and heap: "\<forall>x. h' x =
            (if x \<in> set (filter (\<lambda>r. is_dfir (h r)) line) then retag (grace_tag h ss x) (h x)
             else h x)"
    unfolding grace_result_def by simp_all
  have members: "\<forall>i<length ss. events (ss' ! i) =
             events (ss ! i) @
               filter (\<lambda>r. grace_target h ss r = Some i) (filter (\<lambda>r. is_dfir (h r)) line)"
    using nth by simp
  have tags: "\<forall>r\<in>set line. is_dfir (h r) \<longrightarrow>
             correlation (h' r) =
               (case grace_tag h ss r of None \<Rightarrow> correlation (h r) | Some c \<Rightarrow> Some c)"
    using heap by (simp add: correlation_retag)
  from len members tags show ?thesis by (intro conjI)
qed

text \<open>
  C10. The grace pass only appends event records to the member lists and only writes
  correlation tags: the number of sessions and each session's start time, end time,
  reasons, user and source address stay as they are, the old member list is a prefix of
  the new one, every appended event has a parsed time, and every event record is
  unchanged but for its tag.
\<close>

theorem grace_pass_only_appends_and_tags:
  assumes "grace_pass line (h, ss) = Inr (h', ss')"
  shows "length ss' = length ss
       \<and> (\<forall>i<length ss.
             start_time (ss' ! i) = start_time (ss ! i)
           \<and> end_time (ss' ! i) = end_time (ss ! i)
           \<and> start_reason (ss' ! i) = start_reason (ss ! i)
           \<and> end_reason (ss' ! i) = end_reason (ss ! i)
           \<and> user (ss' ! i) = user (ss ! i)
           \<and> source_ip (ss' ! i) = source_ip (ss ! i)
           \<and> prefix (events (ss ! i)) (events (ss' ! i))
           \<and> (\<forall>r\<in>set (drop (length (events (ss ! i))) (events (ss' ! i))).
                 parsed_time (h r) \<noteq> None))
       \<and> (\<forall>x. untag (h' x) = untag (h x))"
proof -
  from grace_pass_result [OF assms]
  have len: "length ss' = length ss"
    and nth: "\<forall>i<length ss. ss' ! i =
            (ss ! i)\<lparr>events := events (ss ! i) @
               filter (\<lambda>r. grace_target h ss r = Some i) (filter (\<lambda>r. is_dfir (h r)) line)\<rparr>"
    and heap: "\<forall>x. h' x =
            (if x \<in> set (filter (\<lambda>r. is_dfir (h r)) line) then retag (grace_tag h ss x) (h x)
             else h x)"
    unfolding grace_result_def by simp_all
  have frame: "\<forall>i<length ss.
             start_time (ss' ! i) = start_time (ss ! i)
           \<and> end_time (ss' ! i) = end_time (ss ! i)
           \<and> start_reason (ss' ! i) = start_reason (ss ! i)
           \<and> end_reason (ss' ! i) = end_reason (ss ! i)
           \<and> user (ss' ! i) = user (ss ! i)
           \<and> source_ip (ss' ! i) = source_ip (ss ! i)
           \<and> prefix (events (ss ! i)) (events (ss' ! i))
           \<and> (\<forall>r\<in>set (drop (length (events (ss ! i))) (events (ss' ! i))).
                 parsed_time (h r) \<noteq> None)"
    using nth by (auto dest: grace_target_Some_time)
  have tags_only: "\<forall>x. untag (h' x) = untag (h x)"
    using heap by simp
  from len frame tags_only show ?thesis by (intro conjI)
qed

lemma admin_run:
  "grace_pass [0, 1, 2, 3, 4, 5, 6] (heap_of admin_log, admin_sessions) =
     Inr (admin_tagged, admin_correlated)"
  by (simp add: admin_defs example_defs datetime_defs grace_defs)

theorem grace_correlator_first_window_witness:
  "grace_pass [0, 1, 2, 3, 4, 5, 6] (heap_of admin_log, admin_sessions) =
     Inr (admin_tagged, admin_correlated)
   \<and> events (admin_correlated ! 0) = events (admin_sessions ! 0) @ [0, 4]
   \<and> correlation (admin_tagged 0) = Some ''grace_before''
   \<and> correlation (admin_tagged 4) = Some ''grace_after''
   \<and> correlation (admin_tagged 5) = correlation (heap_of admin_log 5)"
proof -
  note inst = grace_correlator_first_window [OF admin_run]
  have target: "filter (\<lambda>r. grace_target (heap_of admin_log) admin_sessions r = Some 0)
      (filter (\<lambda>r. is_dfir (heap_of admin_log r)) [0, 1, 2, 3, 4, 5, 6]) = [0, 4]"
    by (simp add: admin_defs example_defs datetime_defs grace_defs window_defs)
  have t0: "grace_tag (heap_of admin_log) admin_sessions 0 = Some ''grace_before''"
    and t4: "grace_tag (heap_of admin_log) admin_sessions 4 = Some ''grace_after''"
    and t5: "grace_tag (heap_of admin_log) admin_sessions 5 = None"
    by (simp_all add: admin_defs example_defs datetime_defs window_defs)
  have d: "is_dfir (heap_of admin_log 0)" "is_dfir (heap_of admin_log 4)"
    "is_dfir (heap_of admin_log 5)"
    by (simp_all add: admin_defs example_defs grace_defs)
  from inst have members: "events (admin_correlated ! 0) = events (admin_sessions ! 0) @ [0, 4]"
    using target by (simp add: admin_sessions_def)
  from inst d t0 have c0: "correlation (admin_tagged 0) = Some ''grace_before''"
    by simp
  from inst d t4 have c4: "correlation (admin_tagged 4) = Some ''grace_after''"
    by simp
  from inst d t5 have c5: "correlation (admin_tagged 5) = correlation (heap_of admin_log 5)"
    by simp
  from admin_run members c0 c4 c5 show ?thesis by (intro conjI)
qed

theorem grace_pass_only_appends_and_tags_witness:
  "grace_pass [0, 1, 2, 3, 4, 5, 6] (heap_of admin_log, admin_sessions) =
     Inr (admin_tagged, admin_correlated)
   \<and> start_time (admin_correlated ! 0) = start_time (admin_sessions ! 0)
   \<and> end_time (admin_correlated ! 0) = end_time (admin_sessions ! 0)
   \<and> end_reason (admin_correlated ! 0) = end_reason (admin_sessions ! 0)
   \<and> prefix (events (admin_sessions ! 0)) (events (admin_correlated ! 0))
   \<and> untag (admin_tagged 0) = untag (heap_of admin_log 0)"
proof -
  note inst = grace_pass_only_appends_and_tags [OF admin_run]
  have len: "0 < length admin_sessions" by (simp add: admin_sessions_def)
  from inst len have "start_time (admin_correlated ! 0) = start_time (admin_sessions ! 0)"
    and "end_time (admin_correlated ! 0) = end_time (admin_sessions ! 0)"
    and "end_reason (admin_correlated ! 0) = end_reason (admin_sessions ! 0)"
    and "prefix (events (admin_sessions ! 0)) (events (admin_correlated ! 0))"
    and "untag (admin_tagged 0) = untag (heap_of admin_log 0)"
    by simp_all
  with admin_run show ?thesis by (intro conjI)
qed

section \<open>The session pass and the passes of build_sessions\<close>

lemma opened_by_close_at_log_end:
  "map opened_by (self_sessions (close_at_log_end s)) = map opened_by (all_sessions s)"
  by (simp add: close_at_log_end_def all_sessions_def opened_by_def split: option.splits)

lemma events_close_at_log_end:
  "map events (self_sessions (close_at_log_end s)) = map events (all_sessions s)"
  by (simp add: close_at_log_end_def all_sessions_def split: option.splits)

lemma event_heap_close_at_log_end [simp]:
  "event_heap (close_at_log_end s) = event_heap s"
  by (simp add: close_at_log_end_def split: option.splits)

lemma all_sessions_scan_start [simp]: "all_sessions (scan_start h ss) = ss"
  by (simp add: all_sessions_def scan_start_def)

lemma event_heap_scan_start [simp]: "event_heap (scan_start h ss) = h"
  by (simp add: scan_start_def)

lemma session_pass_scan:
  assumes "session_pass h self = Inr (h1, ss1)"
  obtains s where "scan_loop (timeline self) (scan_start h (sessions self)) = Inr s"
    and "h1 = event_heap s" and "ss1 = self_sessions (close_at_log_end s)"
  using assms unfolding session_pass_def by (auto split: sum.splits)

lemma build_sessions_passes:
  assumes "build_sessions h self = Inr (h', self')"
  obtains h1 ss1 where "session_pass h self = Inr (h1, ss1)"
    and "grace_pass (timeline self) (h1, ss1) = Inr (h', sessions self')"
    and "self' = self\<lparr>sessions := sessions self'\<rparr>"
  using assms unfolding build_sessions_def by (auto split: sum.splits)

lemma opened_by_session_pass:
  assumes "session_pass h self = Inr (h1, ss1)" and "sessions self = []"
  shows "map opened_by ss1 = List.map_filter (start_marker h) (timeline self)"
    and "\<forall>x\<in>set ss1. events x \<noteq> []"
proof -
  from assms(1) obtain s
    where scan: "scan_loop (timeline self) (scan_start h (sessions self)) = Inr s"
      and ss1: "ss1 = self_sessions (close_at_log_end s)"
    by (rule session_pass_scan)
  have "\<forall>x\<in>set (all_sessions (scan_start h (sessions self))). events x \<noteq> []"
    by (simp add: assms(2))
  from opened_by_scan_loop [OF scan this]
  have opened: "map opened_by (all_sessions s) = List.map_filter (start_marker h) (timeline self)"
    and ne: "\<forall>x\<in>set (all_sessions s). events x \<noteq> []"
    by (simp_all add: assms(2))
  from opened show "map opened_by ss1 = List.map_filter (start_marker h) (timeline self)"
    by (simp add: ss1 opened_by_close_at_log_end)
  have "set (map events ss1) = set (map events (all_sessions s))"
    by (simp only: ss1 events_close_at_log_end)
  then have "events ` set ss1 = events ` set (all_sessions s)"
    by (simp only: set_map)
  with ne show "\<forall>x\<in>set ss1. events x \<noteq> []"
    by (metis imageE imageI)
qed

lemma opened_by_grace_result:
  assumes "grace_result ds (h, ss) (h', ss')" and "\<forall>x\<in>set ss. events x \<noteq> []"
  shows "map opened_by ss' = map opened_by ss"
proof (rule nth_equalityI)
  from assms(1) show len: "length (map opened_by ss') = length (map opened_by ss)"
    by (simp add: grace_result_def)
  fix i assume "i < length (map opened_by ss')"
  with len have i: "i < length ss" by simp
  with assms(2) have ne: "events (ss ! i) \<noteq> []" by simp
  from assms(1) i have "ss' ! i = (ss ! i)\<lparr>events := events (ss ! i) @
               filter (\<lambda>r. grace_target h ss r = Some i) ds\<rparr>"
    by (simp add: grace_result_def)
  then have "opened_by (ss' ! i) = opened_by (ss ! i)"
    using ne by (simp add: opened_by_def Suc_le_eq)
  with i len show "map opened_by ss' ! i = map opened_by ss ! i"
    by simp
qed

text \<open>
  C4, amended. Every start marker that has a parsed time opens a new session: the
  sessions returned by \<^verbatim>\<open>build_sessions\<close> on a fresh builder are, in order, exactly the
  sessions opened by the timestamped start markers of the timeline, each starting at its
  marker's time with the marker as first member; and the step that processes such a
  marker first closes, with the reason \<^verbatim>\<open>overlapping_session_start\<close>, the session
  still open after the inactivity check. A start marker without a parsed time is skipped
  (see \<open>start_marker_without_time_opens_nothing\<close>).
\<close>

theorem timestamped_start_marker_opens_session:
  assumes "sessions self = []" and "build_sessions h self = Inr (h', self')"
  shows "map opened_by (sessions self') = List.map_filter (start_marker h) (timeline self)
       \<and> (\<forall>r s s' t. scan_step r s = Inr s' \<and> event_id (event_heap s r) = Some ''21''
               \<and> parsed_time (event_heap s r) = Some t \<longrightarrow>
             (\<exists>s1. inactivity_check t s = Inr s1
               \<and> self_sessions s' = self_sessions s1 @
                    (case current_session s1 of
                       None \<Rightarrow> []
                     | Some cs \<Rightarrow>
                         [cs\<lparr>end_time := Some t,
                             end_reason := Some ''overlapping_session_start''\<rparr>])
               \<and> current_session s' = Some
                    \<lparr>start_time = t, end_time = None, start_reason = ''lsm_session_start'',
                     end_reason = None, user = extract_user (details (event_heap s r)),
                     source_ip = extract_ip (details (event_heap s r)), events = [r]\<rparr>))"
proof (intro conjI allI impI)
  from assms(2) obtain h1 ss1 where sp: "session_pass h self = Inr (h1, ss1)"
    and gp: "grace_pass (timeline self) (h1, ss1) = Inr (h', sessions self')"
    by (rule build_sessions_passes)
  note opened = opened_by_session_pass [OF sp assms(1)]
  from opened_by_grace_result [OF grace_pass_result [OF gp] opened(2)] opened(1)
  show "map opened_by (sessions self') = List.map_filter (start_marker h) (timeline self)"
    by simp
next
  fix r s s' t
  assume a: "scan_step r s = Inr s' \<and> event_id (event_heap s r) = Some ''21''
               \<and> parsed_time (event_heap s r) = Some t"
  then obtain s1 where check: "inactivity_check t s = Inr s1"
    and s': "s' = interpret_event r t s1"
    by (auto simp: scan_step_def split: sum.splits)
  have heap: "event_heap s1 = event_heap s"
    by (rule inactivity_check_heap [OF check])
  from a have marker: "event_id (event_heap s1 r) = Some ''21''"
    by (simp add: heap)
  have "self_sessions s' = self_sessions s1 @
                    (case current_session s1 of
                       None \<Rightarrow> []
                     | Some cs \<Rightarrow>
                         [cs\<lparr>end_time := Some t,
                             end_reason := Some ''overlapping_session_start''\<rparr>])
               \<and> current_session s' = Some
                    \<lparr>start_time = t, end_time = None, start_reason = ''lsm_session_start'',
                     end_reason = None, user = extract_user (details (event_heap s r)),
                     source_ip = extract_ip (details (event_heap s r)), events = [r]\<rparr>"
    using marker by (simp add: s' interpret_event_def Let_def heap split: option.splits)
  with check show "\<exists>s1. inactivity_check t s = Inr s1
               \<and> self_sessions s' = self_sessions s1 @
                    (case current_session s1 of
                       None \<Rightarrow> []
                     | Some cs \<Rightarrow>
                         [cs\<lparr>end_time := Some t,
                             end_reason := Some ''overlapping_session_start''\<rparr>])
               \<and> current_session s' = Some
                    \<lparr>start_time = t, end_time = None, start_reason = ''lsm_session_start'',
                     end_reason = None, user = extract_user (details (event_heap s r)),
                     source_ip = extract_ip (details (event_heap s r)), events = [r]\<rparr>"
    by blast
qed

theorem timestamped_start_marker_opens_session_witness:
  "(case build_sessions (heap_of unstamped_log)
           \<lparr>raw_events = [0, 1, 2, 3], timeline = [0, 1, 2, 3], sessions = []\<rparr> of
      Inl e \<Rightarrow> False
    | Inr (h', self') \<Rightarrow>
        map opened_by (sessions self') = [(utc_at 0, [1]), (utc_at 5, [3])])"
proof -
  let ?self = "\<lparr>raw_events = [0, 1, 2, 3], timeline = [0, 1, 2, 3], sessions = []\<rparr>"
  have "\<exists>hb. build_sessions (heap_of unstamped_log) ?self = Inr hb"
    by (simp add: unstamped_log_def example_defs datetime_defs scan_defs grace_defs)
  then obtain h' self' where run: "build_sessions (heap_of unstamped_log) ?self = Inr (h', self')"
    by auto
  have fresh: "sessions ?self = []" by simp
  have markers: "List.map_filter (start_marker (heap_of unstamped_log)) (timeline ?self)
       = [(utc_at 0, [1]), (utc_at 5, [3])]"
    by (simp add: unstamped_log_def example_defs start_marker_def List.map_filter_simps)
  from timestamped_start_marker_opens_session [OF fresh run, THEN conjunct1] markers
  have "map opened_by (sessions self') = [(utc_at 0, [1]), (utc_at 5, [3])]"
    by simp
  with run show ?thesis by simp
qed

section \<open>The timeline sorter\<close>

lemma same_kind_refl [simp]: "same_kind a a"
  by (cases a) simp_all

lemma same_kind_sym: "same_kind a b \<Longrightarrow> same_kind b a"
  by (cases a; cases b) simp_all

lemma same_kind_trans: "same_kind a b \<Longrightarrow> same_kind b c \<Longrightarrow> same_kind a c"
  by (cases a; cases b; cases c) simp_all

lemma insort_lt_insort_key:
  "\<forall>y\<in>set ys. same_kind (k y) (k x) \<Longrightarrow>
     insort_lt k x ys = Inr (insort_key (\<lambda>a. instant (k a)) x ys)"
  by (induction ys) (auto simp: dt_lt_def)

lemma insort_lt_first_kind:
  "insort_lt k x (y # ys) = Inr zs \<Longrightarrow> same_kind (k y) (k x)"
  by (simp add: dt_lt_def split: if_splits)

lemma comparable_Cons:
  assumes "comparable k xs" and "y \<in> set xs" and "same_kind (k y) (k x)"
  shows "comparable k (x # xs)"
proof -
  have one: "same_kind (k z) (k x)" if "z \<in> set xs" for z
  proof -
    from assms(1,2) that have "same_kind (k z) (k y)" by (simp add: comparable_def)
    with assms(3) show ?thesis by (rule same_kind_trans [rotated])
  qed
  show ?thesis
    unfolding comparable_def using assms(1) one
    by (auto simp: comparable_def dest: same_kind_sym)
qed

lemma py_sorted_Inr:
  "py_sorted k xs = Inr ys \<Longrightarrow> comparable k xs \<and> ys = sort_key (\<lambda>a. instant (k a)) xs"
proof (induction xs arbitrary: ys)
  case Nil
  then show ?case by (simp add: comparable_def)
next
  case (Cons x xs)
  from Cons.prems obtain ys0 where rec: "py_sorted k xs = Inr ys0"
    and ins: "insort_lt k x ys0 = Inr ys"
    by (auto split: sum.splits)
  from Cons.IH [OF rec] have cmp: "comparable k xs"
    and ys0: "ys0 = sort_key (\<lambda>a. instant (k a)) xs" by simp_all
  have cmp': "comparable k (x # xs)"
  proof (cases ys0)
    case Nil
    with ys0 have "set xs = {}" by (metis set_sort set_empty)
    then show ?thesis by (simp add: comparable_def)
  next
    case (Cons y zs)
    with ins have kind: "same_kind (k y) (k x)" by (simp add: insort_lt_first_kind)
    from Cons ys0 have "y \<in> set xs" by (metis list.set_intros(1) set_sort)
    from comparable_Cons [OF cmp this kind] show ?thesis .
  qed
  then have "\<forall>y\<in>set ys0. same_kind (k y) (k x)"
    by (simp add: comparable_def ys0)
  from insort_lt_insort_key [OF this] ins ys0 have "ys = sort_key (\<lambda>a. instant (k a)) (x # xs)"
    by simp
  with cmp' show ?case by simp
qed

lemma py_sorted_comparable:
  "comparable k xs \<Longrightarrow> py_sorted k xs = Inr (sort_key (\<lambda>a. instant (k a)) xs)"
proof (induction xs)
  case Nil
  then show ?case by simp
next
  case (Cons x xs)
  then have cmp: "comparable k xs" and kinds: "\<forall>y\<in>set xs. same_kind (k y) (k x)"
    by (simp_all add: comparable_def)
  from kinds have "\<forall>y\<in>set (sort_key (\<lambda>a. instant (k a)) xs). same_kind (k y) (k x)"
    by simp
  from insort_lt_insort_key [OF this] Cons.IH [OF cmp] show ?case by simp
qed

lemma parsed_time_same_update:
  "parsed_time e = None \<Longrightarrow> e\<lparr>parsed_time := None\<rparr> = e"
  by (cases e) simp

lemma fill_parsed_time_settled_id:
  "\<forall>r\<in>set xs. settled P h r \<Longrightarrow> fill_parsed_time P xs h = h"
proof (induction xs arbitrary: h)
  case Nil
  then show ?case by simp
next
  case (Cons r rs)
  then have r: "settled P h r" and rs: "\<forall>x\<in>set rs. settled P h x" by simp_all
  have "(case parsed_time (h r) of
          None \<Rightarrow> h(r := (h r)\<lparr>parsed_time := parse_timestamp P (timestamp (h r))\<rparr>)
        | Some t \<Rightarrow> h) = h"
    using r by (auto simp: settled_def parsed_time_same_update split: option.splits)
  with Cons.IH [OF rs] show ?case by simp
qed

lemma fill_parsed_time_keeps_settled:
  "settled P h x \<Longrightarrow> settled P (fill_parsed_time P xs h) x"
proof (induction xs arbitrary: h)
  case Nil
  then show ?case by simp
next
  case (Cons r rs)
  have "settled P (case parsed_time (h r) of
          None \<Rightarrow> h(r := (h r)\<lparr>parsed_time := parse_timestamp P (timestamp (h r))\<rparr>)
        | Some t \<Rightarrow> h) x"
    using Cons.prems by (auto simp: settled_def split: option.splits)
  from Cons.IH [OF this] show ?case by simp
qed

lemma fill_parsed_time_settles:
  "\<forall>r\<in>set xs. settled P (fill_parsed_time P xs h) r"
proof (induction xs arbitrary: h)
  case Nil
  then show ?case by simp
next
  case (Cons r rs)
  let ?h1 = "case parsed_time (h r) of
          None \<Rightarrow> h(r := (h r)\<lparr>parsed_time := parse_timestamp P (timestamp (h r))\<rparr>)
        | Some t \<Rightarrow> h"
  have "settled P ?h1 r"
    by (auto simp: settled_def split: option.splits)
  from fill_parsed_time_keeps_settled [OF this]
  have "settled P (fill_parsed_time P rs ?h1) r" .
  with Cons.IH [of ?h1] show ?case by simp
qed

lemma build_timeline_Inr:
  assumes "build_timeline P h self = Inr (h', self')"
  shows "h' = fill_parsed_time P (raw_events self) h"
    and "self' = self\<lparr>timeline := timeline self'\<rparr>"
    and "comparable (timeline_key h') (raw_events self)"
    and "timeline self' = sort_key (\<lambda>r. instant (timeline_key h' r)) (raw_events self)"
proof -
  from assms obtain srt where h': "h' = fill_parsed_time P (raw_events self) h"
    and srt: "py_sorted (timeline_key h') (raw_events self) = Inr srt"
    and self': "self' = self\<lparr>timeline := srt\<rparr>"
    by (auto simp: build_timeline_def Let_def split: sum.splits)
  from h' show "h' = fill_parsed_time P (raw_events self) h" .
  from self' show "self' = self\<lparr>timeline := timeline self'\<rparr>" by simp
  from py_sorted_Inr [OF srt] self'
  show "comparable (timeline_key h') (raw_events self)"
    and "timeline self' = sort_key (\<lambda>r. instant (timeline_key h' r)) (raw_events self)"
    by simp_all
qed

lemma build_timeline_sorted:
  assumes "build_timeline P h self = Inr (h', self')"
  shows "sorted_timeline h' (timeline self')"
proof -
  let ?f = "\<lambda>r. instant (timeline_key h' r)"
  note run = build_timeline_Inr [OF assms]
  have "sorted (map ?f (timeline self'))"
    by (simp add: run(4))
  then have ord: "sorted_wrt (\<lambda>a b. ?f a \<le> ?f b) (timeline self')"
    by (simp add: sorted_map)
  have "set (timeline self') = set (raw_events self)"
    by (simp add: run(4))
  with run(3) have kinds: "\<And>a b. a \<in> set (timeline self') \<Longrightarrow> b \<in> set (timeline self')
      \<Longrightarrow> same_kind (timeline_key h' a) (timeline_key h' b)"
    by (simp add: comparable_def)
  show ?thesis
    unfolding sorted_timeline_def
    by (rule sorted_wrt_mono_rel [OF _ ord]) (simp add: dt_le_def kinds)
qed

text \<open>
  C9. The timeline sorter is stable and idempotent: whenever \<^verbatim>\<open>build_timeline\<close> returns,
  the events of any one key (events with equal times; events without a time, whose key
  is the minimum) stand in the timeline in their original relative order, and running
  \<^verbatim>\<open>build_timeline\<close> again on the timeline it produced returns the same sequence and
  leaves the events as they are.
\<close>

theorem timeline_sorter_stable_idempotent:
  assumes "build_timeline fromisoformat h self = Inr (h', self')"
  shows "(\<forall>d. filter (\<lambda>r. instant (timeline_key h' r) = d) (timeline self') =
              filter (\<lambda>r. instant (timeline_key h' r) = d) (raw_events self))
       \<and> build_timeline fromisoformat h' (RDPTimelineBuilder (timeline self')) =
           Inr (h', (RDPTimelineBuilder (timeline self'))\<lparr>timeline := timeline self'\<rparr>)"
proof (intro conjI allI)
  let ?f = "\<lambda>r. instant (timeline_key h' r)"
  note run = build_timeline_Inr [OF assms]
  fix d
  show "filter (\<lambda>r. ?f r = d) (timeline self') = filter (\<lambda>r. ?f r = d) (raw_events self)"
    by (simp only: run(4) sort_key_stable)
next
  let ?f = "\<lambda>r. instant (timeline_key h' r)"
  let ?line = "timeline self'"
  note run = build_timeline_Inr [OF assms]
  have same_set: "set ?line = set (raw_events self)"
    by (simp add: run(4))
  have "\<forall>r\<in>set (raw_events self). settled fromisoformat h' r"
    unfolding run(1) by (rule fill_parsed_time_settles)
  with same_set have "\<forall>r\<in>set ?line. settled fromisoformat h' r"
    by simp
  then have fill: "fill_parsed_time fromisoformat ?line h' = h'"
    by (rule fill_parsed_time_settled_id)
  from run(3) same_set have "comparable (timeline_key h') ?line"
    by (simp add: comparable_def)
  then have "py_sorted (timeline_key h') ?line = Inr (sort_key ?f ?line)"
    by (rule py_sorted_comparable)
  moreover have "sorted (map ?f ?line)"
    by (simp add: run(4))
  then have "sort_key ?f ?line = ?line"
    by (rule sort_key_id_if_sorted)
  ultimately have "py_sorted (timeline_key h') ?line = Inr ?line"
    by simp
  with fill show "build_timeline fromisoformat h' (RDPTimelineBuilder ?line) =
           Inr (h', (RDPTimelineBuilder ?line)\<lparr>timeline := ?line\<rparr>)"
    by (simp add: build_timeline_def RDPTimelineBuilder_def)
qed

theorem timeline_sorter_stable_idempotent_witness:
  "(case build_timeline (\<lambda>ts. None) (heap_of naive_log) (RDPTimelineBuilder [0, 1, 2, 3]) of
      Inl e \<Rightarrow> False
    | Inr (h', self') \<Rightarrow>
        timeline self' = [1, 3, 0, 2]
        \<and> filter (\<lambda>r. instant (timeline_key h' r) = 50) (timeline self') = [0, 2]
        \<and> build_timeline (\<lambda>ts. None) h' (RDPTimelineBuilder (timeline self')) =
            Inr (h', (RDPTimelineBuilder (timeline self'))\<lparr>timeline := timeline self'\<rparr>))"
proof -
  have "\<exists>h' self'. build_timeline (\<lambda>ts. None) (heap_of naive_log) (RDPTimelineBuilder [0, 1, 2, 3])
           = Inr (h', self') \<and> timeline self' = [1, 3, 0, 2]
           \<and> filter (\<lambda>r. instant (timeline_key h' r) = 50) [0, 1, 2, 3] = [0, 2]"
    by (simp add: naive_log_def example_defs timeline_defs datetime_defs)
  then obtain h' self' where
    run: "build_timeline (\<lambda>ts. None) (heap_of naive_log) (RDPTimelineBuilder [0, 1, 2, 3])
           = Inr (h', self')"
    and line: "timeline self' = [1, 3, 0, 2]"
    and raw: "filter (\<lambda>r. instant (timeline_key h' r) = 50) [0, 1, 2, 3] = [0, 2]"
    by blast
  note inst = timeline_sorter_stable_idempotent [OF run]
  from inst raw have "filter (\<lambda>r. instant (timeline_key h' r) = 50) (timeline self') = [0, 2]"
    by (simp add: RDPTimelineBuilder_def)
  with inst run line show ?thesis by simp
qed

section \<open>Sessions on a sorted timeline\<close>

lemma dt_le_refl [simp]: "dt_le a a = Inr True"
  by (simp add: dt_le_def)

lemma dt_le_trans:
  "dt_le a b = Inr True \<Longrightarrow> dt_le b c = Inr True \<Longrightarrow> dt_le a c = Inr True"
  by (auto simp: dt_le_def split: if_splits intro: same_kind_trans)

lemma dt_le_True: "dt_le a b = Inr True \<longleftrightarrow> same_kind a b \<and> instant a \<le> instant b"
  by (simp add: dt_le_def)

lemma inactivity_check_ok:
  assumes "closed_ok s" and "open_ok s" and "ahead s t"
  shows "\<exists>s1. inactivity_check t s = Inr s1 \<and> closed_ok s1 \<and> open_ok s1
           \<and> last_event_time s1 = last_event_time s \<and> event_heap s1 = event_heap s"
proof (cases "current_session s")
  case None
  with assms show ?thesis by (simp add: inactivity_check_def)
next
  case (Some cs)
  with assms(2) obtain l where l: "last_event_time s = Some l"
    and start: "dt_le (start_time cs) l = Inr True"
    by (auto simp: open_ok_def split: option.splits)
  from assms(3) l have "dt_le l t = Inr True" by (simp add: ahead_def)
  then have kind: "same_kind t l" by (simp add: dt_le_True same_kind_sym)
  show ?thesis
  proof (cases "instant t - instant l > INACTIVITY_TIMEOUT")
    case True
    let ?s1 = "s\<lparr>current_session := None,
                  self_sessions := self_sessions s @
                    [cs\<lparr>end_time := Some l, end_reason := Some ''inactivity_timeout''\<rparr>]\<rparr>"
    have "inactivity_check t s = Inr ?s1"
      using Some l kind True by (simp add: inactivity_check_def dt_sub_def)
    moreover have "closed_ok ?s1"
      using assms(1) start by (simp add: closed_ok_def well_formed_closed_def end_reasons_def)
    moreover have "open_ok ?s1" by (simp add: open_ok_def)
    ultimately show ?thesis by simp
  next
    case False
    have "inactivity_check t s = Inr s"
      using Some l kind False by (simp add: inactivity_check_def dt_sub_def)
    with assms show ?thesis by simp
  qed
qed

lemma interpret_event_ok:
  assumes "closed_ok s" and "open_ok s" and "ahead s t"
  shows "closed_ok (interpret_event r t s) \<and> open_ok (interpret_event r t s)
       \<and> last_event_time (interpret_event r t s) = Some t"
proof (cases "current_session s")
  case None
  with assms(1) show ?thesis
    by (simp add: interpret_event_def Let_def closed_ok_def open_ok_def)
next
  case (Some cs)
  with assms(2) obtain l where l: "last_event_time s = Some l"
    and start: "dt_le (start_time cs) l = Inr True"
    by (auto simp: open_ok_def split: option.splits)
  from assms(3) l have "dt_le l t = Inr True" by (simp add: ahead_def)
  with start have reach: "dt_le (start_time cs) t = Inr True" by (rule dt_le_trans)
  show ?thesis
    using Some assms(1) reach
    by (simp add: interpret_event_def Let_def closed_ok_def open_ok_def well_formed_closed_def
        end_reasons_def)
qed

lemma stamps_Cons:
  "stamps h (r # rs) = (case parsed_time (h r) of None \<Rightarrow> stamps h rs | Some t \<Rightarrow> t # stamps h rs)"
  by (simp add: stamps_def List.map_filter_simps split: option.splits)

lemma stamps_Nil [simp]: "stamps h [] = []"
  by (simp add: stamps_def)

lemma stamps_untag:
  assumes "\<And>x. untag (h' x) = untag (h x)"
  shows "stamps h' rs = stamps h rs"
proof -
  have "parsed_time (h' r) = parsed_time (h r)" for r
    using untag_fields [OF assms [of r]] by simp
  then show ?thesis by (simp add: stamps_def)
qed

lemma scan_step_ok:
  assumes "closed_ok s" and "open_ok s"
    and "chain ((case last_event_time s of None \<Rightarrow> [] | Some l \<Rightarrow> [l]) @ stamps (event_heap s) (r # rs))"
  shows "\<exists>s'. scan_step r s = Inr s' \<and> closed_ok s' \<and> open_ok s'
           \<and> chain ((case last_event_time s' of None \<Rightarrow> [] | Some l \<Rightarrow> [l]) @ stamps (event_heap s') rs)"
proof (cases "parsed_time (event_heap s r)")
  case None
  with assms show ?thesis by (simp add: scan_step_def stamps_Cons)
next
  case (Some t)
  with assms(3) have ch: "chain ((case last_event_time s of None \<Rightarrow> [] | Some l \<Rightarrow> [l])
      @ t # stamps (event_heap s) rs)"
    by (simp add: stamps_Cons)
  then have ahead: "ahead s t"
    by (simp add: chain_def ahead_def sorted_wrt_append split: option.splits)
  from ch have rest: "chain (t # stamps (event_heap s) rs)"
    by (simp add: chain_def sorted_wrt_append)
  from inactivity_check_ok [OF assms(1,2) ahead] obtain s1
    where check: "inactivity_check t s = Inr s1" and c1: "closed_ok s1" and o1: "open_ok s1"
      and l1: "last_event_time s1 = last_event_time s" and h1: "event_heap s1 = event_heap s"
    by blast
  from ahead l1 have a1: "ahead s1 t" by (simp add: ahead_def)
  let ?s' = "interpret_event r t s1"
  have step: "scan_step r s = Inr ?s'"
    using Some check by (simp add: scan_step_def)
  note ok = interpret_event_ok [OF c1 o1 a1, of r]
  have "stamps (event_heap ?s') rs = stamps (event_heap s) rs"
    by (rule stamps_untag) (simp add: interpret_event_untag h1)
  with rest ok have "chain ((case last_event_time ?s' of None \<Rightarrow> [] | Some l \<Rightarrow> [l])
      @ stamps (event_heap ?s') rs)"
    by simp
  with step ok show ?thesis by simp
qed

lemma scan_loop_ok:
  assumes "closed_ok s" and "open_ok s"
    and "chain ((case last_event_time s of None \<Rightarrow> [] | Some l \<Rightarrow> [l]) @ stamps (event_heap s) rs)"
  shows "\<exists>s'. scan_loop rs s = Inr s' \<and> closed_ok s' \<and> open_ok s'"
  using assms
proof (induction rs arbitrary: s)
  case Nil
  then show ?case by simp
next
  case (Cons r rs)
  from scan_step_ok [OF Cons.prems] obtain s1
    where step: "scan_step r s = Inr s1" and c1: "closed_ok s1" and o1: "open_ok s1"
      and ch1: "chain ((case last_event_time s1 of None \<Rightarrow> [] | Some l \<Rightarrow> [l])
         @ stamps (event_heap s1) rs)"
    by blast
  from Cons.IH [OF c1 o1 ch1] step show ?case by simp
qed

lemma set_stamps:
  "u \<in> set (stamps h rs) \<longleftrightarrow> (\<exists>r\<in>set rs. parsed_time (h r) = Some u)"
  by (induction rs) (auto simp: stamps_Cons split: option.splits)

lemma sorted_timeline_chain:
  "sorted_timeline h line \<Longrightarrow> chain (stamps h line)"
proof (induction line)
  case Nil
  then show ?case by (simp add: chain_def)
next
  case (Cons r rs)
  then have first: "\<forall>b\<in>set rs. dt_le (timeline_key h r) (timeline_key h b) = Inr True"
    and rest: "chain (stamps h rs)"
    by (simp_all add: sorted_timeline_def)
  show ?case
  proof (cases "parsed_time (h r)")
    case None
    with rest show ?thesis by (simp add: stamps_Cons)
  next
    case (Some t)
    have "dt_le t u = Inr True" if "u \<in> set (stamps h rs)" for u
    proof -
      from that obtain b where b: "b \<in> set rs" "parsed_time (h b) = Some u"
        by (auto simp: set_stamps)
      with first Some show ?thesis by (auto simp: timeline_key_def)
    qed
    with rest Some show ?thesis by (simp add: stamps_Cons chain_def)
  qed
qed

lemma close_at_log_end_ok:
  assumes "closed_ok s" and "open_ok s"
  shows "list_all well_formed_closed (self_sessions (close_at_log_end s))"
  using assms
  by (auto simp: close_at_log_end_def closed_ok_def open_ok_def well_formed_closed_def
      end_reasons_def split: option.splits)

lemma session_pass_sorted:
  assumes "sorted_timeline h (timeline self)"
    and "list_all well_formed_closed (sessions self)"
  shows "\<exists>h1 ss1. session_pass h self = Inr (h1, ss1) \<and> list_all well_formed_closed ss1"
proof -
  let ?s0 = "scan_start h (sessions self)"
  have c: "closed_ok ?s0" using assms(2) by (simp add: closed_ok_def scan_start_def)
  have o: "open_ok ?s0" by (simp add: open_ok_def scan_start_def)
  have "chain ((case last_event_time ?s0 of None \<Rightarrow> [] | Some l \<Rightarrow> [l])
      @ stamps (event_heap ?s0) (timeline self))"
    using sorted_timeline_chain [OF assms(1)] by (simp add: scan_start_def)
  from scan_loop_ok [OF c o this] obtain s' where "scan_loop (timeline self) ?s0 = Inr s'"
    and "closed_ok s'" and "open_ok s'" by blast
  then show ?thesis
    by (simp add: session_pass_def close_at_log_end_ok)
qed

lemma well_formed_closed_grace_result:
  assumes "grace_result ds (h, ss) (h', ss')" and "list_all well_formed_closed ss"
  shows "list_all well_formed_closed ss'"
  unfolding list_all_length
proof (intro allI impI)
  fix i assume "i < length ss'"
  with assms(1) have i: "i < length ss" by (simp add: grace_result_def)
  with assms(1) have "ss' ! i = (ss ! i)\<lparr>events := events (ss ! i) @
               filter (\<lambda>r. grace_target h ss r = Some i) ds\<rparr>"
    by (simp add: grace_result_def)
  moreover from assms(2) i have "well_formed_closed (ss ! i)"
    by (simp add: list_all_length)
  ultimately show "well_formed_closed (ss' ! i)"
    by (simp add: well_formed_closed_def split: option.splits)
qed

text \<open>
  C8. On a sorted timeline every session in the list that \<^verbatim>\<open>build_sessions\<close> returns is
  well-formed and closed: its end time is set, its start time is at most its end time,
  and its end reason is one of \<^verbatim>\<open>explicit_logoff\<close>, \<^verbatim>\<open>overlapping_session_start\<close>,
  \<^verbatim>\<open>inactivity_timeout\<close> and \<^verbatim>\<open>session_open_at_log_end\<close>. (The sessions that the
  builder already held, none for a fresh builder, are taken to be so.)
\<close>

theorem returned_sessions_well_formed:
  assumes "sorted_timeline h (timeline self)"
    and "list_all well_formed_closed (sessions self)"
    and "build_sessions h self = Inr (h', self')"
  shows "list_all well_formed_closed (sessions self')"
proof -
  from assms(3) obtain h1 ss1 where sp: "session_pass h self = Inr (h1, ss1)"
    and gp: "grace_pass (timeline self) (h1, ss1) = Inr (h', sessions self')"
    by (rule build_sessions_passes)
  from session_pass_sorted [OF assms(1,2)] sp have "list_all well_formed_closed ss1"
    by simp
  from well_formed_closed_grace_result [OF grace_pass_result [OF gp] this]
  show ?thesis .
qed

theorem returned_sessions_well_formed_witness:
  "(case build_timeline (\<lambda>ts. None)
           (heap_of [mk_event ''21'' (Some (utc_at 0)), mk_event ''4624'' (Some (utc_at 1)),
                     mk_event ''24'' (Some (utc_at 10)), mk_event ''21'' (Some (utc_at 200)),
                     mk_event ''4732'' (Some (utc_at 201))])
           (RDPTimelineBuilder [3, 0, 4, 2, 1]) of
      Inl e \<Rightarrow> False
    | Inr (h, self) \<Rightarrow>
        (case build_sessions h self of
           Inl e \<Rightarrow> False
         | Inr (h', self') \<Rightarrow>
             length (sessions self') = 2 \<and> list_all well_formed_closed (sessions self')))"
proof -
  let ?log = "[mk_event ''21'' (Some (utc_at 0)), mk_event ''4624'' (Some (utc_at 1)),
                     mk_event ''24'' (Some (utc_at 10)), mk_event ''21'' (Some (utc_at 200)),
                     mk_event ''4732'' (Some (utc_at 201))]"
  have "\<exists>h self. build_timeline (\<lambda>ts. None) (heap_of ?log) (RDPTimelineBuilder [3, 0, 4, 2, 1])
           = Inr (h, self) \<and> sessions self = []
           \<and> (\<exists>h' self'. build_sessions h self = Inr (h', self') \<and> length (sessions self') = 2)"
    by (simp add: example_defs timeline_defs datetime_defs scan_defs grace_defs)
  then obtain h self h' self' where
    sort: "build_timeline (\<lambda>ts. None) (heap_of ?log) (RDPTimelineBuilder [3, 0, 4, 2, 1])
           = Inr (h, self)"
    and fresh: "sessions self = []"
    and run: "build_sessions h self = Inr (h', self')"
    and two: "length (sessions self') = 2"
    by blast
  have sorted: "sorted_timeline h (timeline self)"
    by (rule build_timeline_sorted [OF sort])
  have none: "list_all well_formed_closed (sessions self)"
    by (simp add: fresh)
  from returned_sessions_well_formed [OF sorted none run] sort run two
  show ?thesis by simp
qed

section \<open>Membership of events in sessions\<close>

lemma members_inactivity_check:
  "inactivity_check t s = Inr s1 \<Longrightarrow> members (all_sessions s1) = members (all_sessions s)"
  by (simp add: members_def all_sessions_inactivity_check(1))

lemma members_interpret_event:
  "members (all_sessions (interpret_event r t s)) = members (all_sessions s)
   \<or> members (all_sessions (interpret_event r t s)) = members (all_sessions s) @ [r]"
  by (simp add: interpret_event_def Let_def all_sessions_def members_def split: option.splits)

lemma members_scan_step:
  assumes "scan_step r s = Inr s'"
  shows "members (all_sessions s') = members (all_sessions s)
       \<or> members (all_sessions s') = members (all_sessions s) @ [r]"
proof (cases "parsed_time (event_heap s r)")
  case None
  with assms show ?thesis by (simp add: scan_step_def)
next
  case (Some t)
  with assms obtain s1 where check: "inactivity_check t s = Inr s1"
    and s': "s' = interpret_event r t s1"
    by (auto simp: scan_step_def split: sum.splits)
  from members_interpret_event [of r t s1] show ?thesis
    by (simp add: s' members_inactivity_check [OF check])
qed

lemma members_scan_loop:
  assumes "scan_loop rs s = Inr s'" and "distinct rs"
    and "distinct (members (all_sessions s))"
    and "set (members (all_sessions s)) \<inter> set rs = {}"
  shows "distinct (members (all_sessions s'))"
  using assms
proof (induction rs arbitrary: s)
  case Nil
  then show ?case by simp
next
  case (Cons r rs)
  from Cons.prems(1) obtain s1 where step: "scan_step r s = Inr s1"
    and rest: "scan_loop rs s1 = Inr s'"
    by (auto split: sum.splits)
  from members_scan_step [OF step] Cons.prems(2,3,4)
  have "distinct (members (all_sessions s1)) \<and> set (members (all_sessions s1)) \<inter> set rs = {}"
    by auto
  with Cons.IH [OF rest] Cons.prems(2) show ?case by simp
qed

lemma members_close_at_log_end:
  "members (self_sessions (close_at_log_end s)) = members (all_sessions s)"
  by (simp add: members_def events_close_at_log_end)

lemma members_session_pass:
  assumes "session_pass h self = Inr (h1, ss1)" and "sessions self = []"
    and "distinct (timeline self)"
  shows "distinct (members ss1)"
proof -
  from assms(1) obtain s
    where scan: "scan_loop (timeline self) (scan_start h (sessions self)) = Inr s"
      and ss1: "ss1 = self_sessions (close_at_log_end s)"
    by (rule session_pass_scan)
  have "distinct (members (all_sessions s))"
    by (rule members_scan_loop [OF scan assms(3)]) (simp_all add: assms(2) members_def)
  then show ?thesis by (simp add: ss1 members_close_at_log_end)
qed

lemma session_pass_untag:
  assumes "session_pass h self = Inr (h1, ss1)"
  shows "untag (h1 x) = untag (h x)"
proof -
  from assms obtain s
    where scan: "scan_loop (timeline self) (scan_start h (sessions self)) = Inr s"
      and h1: "h1 = event_heap s"
    by (rule session_pass_scan)
  from scan_loop_untag [OF scan, of x] show ?thesis by (simp add: h1)
qed

lemma is_dfir_untag: "untag a = untag b \<Longrightarrow> is_dfir a = is_dfir b"
  using untag_fields [of a b] by (simp add: is_dfir_def)

lemma mset_members_add_member:
  "i < length ss \<Longrightarrow>
     mset (members (ss[i := add_member r (ss ! i)])) = mset (members ss) + {#r#}"
proof (induction ss arbitrary: i)
  case Nil
  then show ?case by simp
next
  case (Cons s ss)
  then show ?case
    by (cases i) (simp_all add: members_def add_member_def)
qed

lemma grace_loop_Cons_cases:
  assumes "grace_loop (r # rs) (h, ss) = Inr hs'"
  shows "(grace_target h ss r = None \<and> grace_loop rs (h, ss) = Inr hs')
       \<or> (\<exists>t i0. parsed_time (h r) = Some t \<and> grace_target h ss r = Some i0 \<and> i0 < length ss
            \<and> grace_loop rs
                 (h(r := (h r)\<lparr>correlation := Some (grace_label t (ss ! i0))\<rparr>),
                  ss[i0 := add_member r (ss ! i0)]) = Inr hs')"
proof (cases "parsed_time (h r)")
  case None
  with assms show ?thesis by (simp add: grace_target_def)
next
  case (Some t)
  with assms obtain ss1 tag where att: "attach r t ss = Inr (ss1, tag)"
    and rest: "grace_loop rs
               (case tag of None \<Rightarrow> h | Some c \<Rightarrow> h(r := (h r)\<lparr>correlation := Some c\<rparr>), ss1)
               = Inr hs'"
    by (cases "attach r t ss") auto
  show ?thesis
  proof (cases "first_match (in_window t) ss")
    case None
    with attach_first_match [OF att] have "ss1 = ss" "tag = None" by simp_all
    with rest None Some show ?thesis by (simp add: grace_target_def)
  next
    case (Some i0)
    with attach_first_match [OF att]
    have "ss1 = ss[i0 := add_member r (ss ! i0)]" "tag = Some (grace_label t (ss ! i0))"
      "i0 < length ss"
      by simp_all
    with rest Some \<open>parsed_time (h r) = Some t\<close> show ?thesis
      by (simp add: grace_target_def)
  qed
qed

lemma mset_members_grace_loop:
  "grace_loop ds (h, ss) = Inr (h', ss') \<Longrightarrow>
     mset (members ss') =
       mset (members ss) + mset (filter (\<lambda>r. grace_target h ss r \<noteq> None) ds)"
proof (induction ds arbitrary: h ss)
  case Nil
  then show ?case by simp
next
  case (Cons r rs)
  from grace_loop_Cons_cases [OF Cons.prems] show ?case
  proof (elim disjE conjE exE)
    assume "grace_target h ss r = None" "grace_loop rs (h, ss) = Inr (h', ss')"
    with Cons.IH [of h ss] show ?thesis by simp
  next
    fix t i0
    assume tgt: "grace_target h ss r = Some i0" and i0: "i0 < length ss"
      and rest: "grace_loop rs
                 (h(r := (h r)\<lparr>correlation := Some (grace_label t (ss ! i0))\<rparr>),
                  ss[i0 := add_member r (ss ! i0)]) = Inr (h', ss')"
    from Cons.IH [OF rest]
    have "mset (members ss') =
       mset (members (ss[i0 := add_member r (ss ! i0)])) +
       mset (filter (\<lambda>r. grace_target h ss r \<noteq> None) rs)"
      by (simp only: grace_target_update)
    with tgt show ?thesis
      by (simp add: mset_members_add_member [OF i0])
  qed
qed

lemma count_distinct_le_1: "distinct xs \<Longrightarrow> count (mset xs) x \<le> 1"
  by (simp add: distinct_count_atmost_1)

text \<open>
  C1 as stated fails: the group change of scenario D is attached to its session as
  \<^verbatim>\<open>in_session\<close> by the scan and appended to the same session again by the grace pass,
  which has no membership check.
\<close>

theorem member_duplicated_by_grace_pass:
  "(case build_timeline (\<lambda>ts. None) (heap_of duplicate_log) (RDPTimelineBuilder [0, 1, 2]) of
      Inl e \<Rightarrow> False
    | Inr (h, self) \<Rightarrow>
        (case build_sessions h self of
           Inl e \<Rightarrow> False
         | Inr (h', self') \<Rightarrow>
             map events (sessions self') = [[0, 1, 2, 1]]
             \<and> \<not> distinct (concat (map events (sessions self')))))"
  by (simp add: duplicate_log_def example_defs timeline_defs datetime_defs scan_defs grace_defs)

text \<open>
  C1, amended. For distinct event records given to a fresh builder, each pass attaches
  an event record at most once: after the session pass no record is a member of two
  sessions or twice a member of one; the grace pass then appends every administratively
  significant event whose time lies in some window exactly once, member or not. So in
  the result a record that is not administratively significant appears at most once in
  all member lists together, and an administratively significant one at most twice.
\<close>

theorem members_once_per_pass:
  assumes "distinct (timeline self)" and "sessions self = []"
    and "build_sessions h self = Inr (h', self')"
  shows "(case session_pass h self of
            Inl e \<Rightarrow> False
          | Inr (h1, ss1) \<Rightarrow>
              distinct (members ss1)
              \<and> mset (members (sessions self')) =
                  mset (members ss1) +
                  mset (filter (\<lambda>r. is_dfir (h r) \<and> grace_target h1 ss1 r \<noteq> None)
                         (timeline self)))
       \<and> (\<forall>r. count_list (members (sessions self')) r \<le> (if is_dfir (h r) then 2 else 1))"
proof -
  from assms(3) obtain h1 ss1 where sp: "session_pass h self = Inr (h1, ss1)"
    and gp: "grace_pass (timeline self) (h1, ss1) = Inr (h', sessions self')"
    by (rule build_sessions_passes)
  let ?added = "filter (\<lambda>r. is_dfir (h r) \<and> grace_target h1 ss1 r \<noteq> None) (timeline self)"
  have once: "distinct (members ss1)"
    by (rule members_session_pass [OF sp assms(2,1)])
  have dfir: "is_dfir (h1 r) = is_dfir (h r)" for r
    by (rule is_dfir_untag) (rule session_pass_untag [OF sp])
  from gp have "grace_loop (filter (\<lambda>r. is_dfir (h r)) (timeline self)) (h1, ss1)
      = Inr (h', sessions self')"
    by (simp add: grace_pass_def dfir)
  from mset_members_grace_loop [OF this]
  have total: "mset (members (sessions self')) = mset (members ss1) + mset ?added"
    by (simp add: conj_commute)
  have bound: "count_list (members (sessions self')) r \<le> (if is_dfir (h r) then 2 else 1)" for r
  proof -
    have c: "count_list (members (sessions self')) r
        = count (mset (members ss1)) r + count (mset ?added) r"
      using total by (simp add: count_mset [symmetric])
    have a: "count (mset (members ss1)) r \<le> 1"
      by (rule count_distinct_le_1 [OF once])
    have "distinct ?added" using assms(1) by simp
    then have b: "count (mset ?added) r \<le> 1"
      by (rule count_distinct_le_1)
    have z: "count (mset ?added) r = 0" if "\<not> is_dfir (h r)"
      using that by simp
    from c a b z show ?thesis by (cases "is_dfir (h r)") simp_all
  qed
  from sp once total bound show ?thesis by simp
qed

theorem members_once_per_pass_witness:
  "(case build_sessions (heap_of duplicate_log)
           \<lparr>raw_events = [0, 1, 2], timeline = [0, 1, 2], sessions = []\<rparr> of
      Inl e \<Rightarrow> False
    | Inr (h', self') \<Rightarrow>
        count_list (members (sessions self')) 0 \<le> 1
        \<and> count_list (members (sessions self')) 1 \<le> 2)"
proof -
  let ?self = "\<lparr>raw_events = [0, 1, 2], timeline = [0, 1, 2], sessions = []\<rparr>"
  have "\<exists>hb. build_sessions (heap_of duplicate_log) ?self = Inr hb"
    by (simp add: duplicate_log_def example_defs datetime_defs scan_defs grace_defs)
  then obtain h' self' where run: "build_sessions (heap_of duplicate_log) ?self = Inr (h', self')"
    by auto
  have d: "distinct (timeline ?self)" and fresh: "sessions ?self = []"
    by simp_all
  have kinds: "\<not> is_dfir (heap_of duplicate_log 0)" "is_dfir (heap_of duplicate_log 1)"
    by (simp_all add: duplicate_log_def example_defs grace_defs)
  note inst = members_once_per_pass [OF d fresh run, THEN conjunct2]
  from inst [THEN spec, of 0] inst [THEN spec, of 1] kinds
  have "count_list (members (sessions self')) 0 \<le> 1
        \<and> count_list (members (sessions self')) 1 \<le> 2"
    by simp
  with run show ?thesis by simp
qed

section \<open>Correlation tags over a run\<close>

lemma tag_interpret_event:
  "correlation (event_heap (interpret_event r t s) x) = Some ''in_session''
   \<or> correlation (event_heap (interpret_event r t s) x) = correlation (event_heap s x)"
  by (simp add: interpret_event_def Let_def split: option.splits)

lemma tag_scan_step:
  assumes "scan_step r s = Inr s'"
  shows "correlation (event_heap s' x) = Some ''in_session''
       \<or> correlation (event_heap s' x) = correlation (event_heap s x)"
proof (cases "parsed_time (event_heap s r)")
  case None
  with assms show ?thesis by (simp add: scan_step_def)
next
  case (Some t)
  with assms obtain s1 where check: "inactivity_check t s = Inr s1"
    and s': "s' = interpret_event r t s1"
    by (auto simp: scan_step_def split: sum.splits)
  from tag_interpret_event [of r t s1 x] show ?thesis
    by (simp add: s' inactivity_check_heap [OF check])
qed

lemma tag_scan_loop:
  assumes "scan_loop rs s = Inr s'"
  shows "correlation (event_heap s' x) = Some ''in_session''
       \<or> correlation (event_heap s' x) = correlation (event_heap s x)"
  using assms
proof (induction rs arbitrary: s)
  case Nil
  then show ?case by simp
next
  case (Cons r rs)
  from Cons.prems obtain s1 where step: "scan_step r s = Inr s1"
    and rest: "scan_loop rs s1 = Inr s'"
    by (auto split: sum.splits)
  from Cons.IH [OF rest] tag_scan_step [OF step, of x] show ?case by auto
qed

lemma heap_of_fresh:
  "\<forall>e\<in>set xs. correlation e = None \<Longrightarrow> correlation (heap_of xs r) = None"
  by (simp add: heap_of_def mk_event_def)

text \<open>
  C2 as stated fails: in scenario D the session pass tags the group change
  \<^verbatim>\<open>in_session\<close>, and the grace pass then overwrites the tag with \<^verbatim>\<open>grace_after\<close>.
\<close>

theorem tag_overwritten_by_grace_pass:
  "(case session_pass (heap_of duplicate_log)
           \<lparr>raw_events = [0, 1, 2], timeline = [0, 1, 2], sessions = []\<rparr> of
      Inl e \<Rightarrow> None
    | Inr (h1, ss1) \<Rightarrow> correlation (h1 1)) = Some ''in_session''
   \<and> (case build_sessions (heap_of duplicate_log)
           \<lparr>raw_events = [0, 1, 2], timeline = [0, 1, 2], sessions = []\<rparr> of
      Inl e \<Rightarrow> None
    | Inr (h', self') \<Rightarrow> correlation (h' 1)) = Some ''grace_after''"
  by (simp add: duplicate_log_def example_defs datetime_defs scan_defs grace_defs)

text \<open>
  C2, amended. For event records that carry no tag at the start, a tag that has been set
  at any point of the run (after any number of iterations of the scan, or of the grace
  loop) is still the tag at the end, with one exception: the \<^verbatim>\<open>in_session\<close> tag of an
  administratively significant event, which the grace pass may overwrite.
\<close>

theorem tags_kept_but_in_session_of_dfir:
  assumes fresh: "\<forall>x. correlation (h x) = None"
    and run: "build_sessions h self = Inr (h', self')"
  shows "(\<forall>k s x c.
            scan_loop (take k (timeline self)) (scan_start h (sessions self)) = Inr s
            \<and> correlation (event_heap s x) = Some c
            \<and> \<not> (c = ''in_session'' \<and> is_dfir (h x))
            \<longrightarrow> correlation (h' x) = Some c)
       \<and> (\<forall>h1 ss1 k hk ssk x c.
            session_pass h self = Inr (h1, ss1)
            \<and> grace_loop (take k (filter (\<lambda>r. is_dfir (h1 r)) (timeline self))) (h1, ss1)
                = Inr (hk, ssk)
            \<and> correlation (hk x) = Some c
            \<and> \<not> (c = ''in_session'' \<and> is_dfir (h x))
            \<longrightarrow> correlation (h' x) = Some c)"
proof -
  from run obtain h1 ss1 where sp: "session_pass h self = Inr (h1, ss1)"
    and gp: "grace_pass (timeline self) (h1, ss1) = Inr (h', sessions self')"
    by (rule build_sessions_passes)
  from sp obtain sN
    where scan: "scan_loop (timeline self) (scan_start h (sessions self)) = Inr sN"
      and h1: "h1 = event_heap sN"
    by (rule session_pass_scan)
  let ?ds = "filter (\<lambda>r. is_dfir (h1 r)) (timeline self)"
  have dfir: "is_dfir (h1 r) = is_dfir (h r)" for r
    by (rule is_dfir_untag) (rule session_pass_untag [OF sp])
  from grace_pass_result [OF gp]
  have final: "h' x = (if x \<in> set ?ds then retag (grace_tag h1 ss1 x) (h1 x) else h1 x)" for x
    by (simp add: grace_result_def)
  have untouched: "h' x = h1 x" if "\<not> is_dfir (h x)" for x
    using that final [of x] by (simp add: dfir)
  have part1: "correlation (h' x) = Some c"
    if pre: "scan_loop (take k (timeline self)) (scan_start h (sessions self)) = Inr s"
      and tag: "correlation (event_heap s x) = Some c"
      and ex: "\<not> (c = ''in_session'' \<and> is_dfir (h x))" for k s x c
  proof -
    from tag_scan_loop [OF pre, of x] tag fresh have c: "c = ''in_session''"
      by (simp add: scan_start_def)
    with ex have nd: "\<not> is_dfir (h x)" by simp
    have "scan_loop (take k (timeline self) @ drop k (timeline self))
        (scan_start h (sessions self)) = Inr sN"
      using scan by simp
    with pre have "scan_loop (drop k (timeline self)) s = Inr sN"
      by (simp only: scan_loop_append sum.case)
    from tag_scan_loop [OF this, of x] tag c have "correlation (h1 x) = Some c"
      by (auto simp: h1)
    with untouched [OF nd] show ?thesis by simp
  qed
  have part2: "correlation (h' x) = Some c"
    if sp': "session_pass h self = Inr (g1, ts1)"
      and pre: "grace_loop (take k (filter (\<lambda>r. is_dfir (g1 r)) (timeline self))) (g1, ts1)
                = Inr (hk, ssk)"
      and tag: "correlation (hk x) = Some c"
      and ex: "\<not> (c = ''in_session'' \<and> is_dfir (h x))" for g1 ts1 k hk ssk x c
  proof -
    from sp sp' have same: "g1 = h1" "ts1 = ss1" by simp_all
    from grace_loop_result [OF pre [unfolded same]]
    have mid: "hk x = (if x \<in> set (take k ?ds) then retag (grace_tag h1 ss1 x) (h1 x) else h1 x)"
      by (simp add: grace_result_def)
    show ?thesis
    proof (cases "x \<in> set (take k ?ds)")
      case True
      then have "x \<in> set ?ds" by (rule in_set_takeD)
      with True mid final [of x] tag show ?thesis by simp
    next
      case False
      with mid tag have t1: "correlation (h1 x) = Some c" by simp
      from tag_scan_loop [OF scan, of x] t1 fresh have "c = ''in_session''"
        by (simp add: scan_start_def h1)
      with ex have "\<not> is_dfir (h x)" by simp
      from untouched [OF this] t1 show ?thesis by simp
    qed
  qed
  from part1 part2 show ?thesis by blast
qed

theorem tags_kept_but_in_session_of_dfir_witness:
  "(case build_sessions (heap_of duplicate_log)
           \<lparr>raw_events = [0, 1, 2], timeline = [0, 1, 2], sessions = []\<rparr> of
      Inl e \<Rightarrow> False
    | Inr (h', self') \<Rightarrow>
        correlation (h' 0) = Some ''in_session'' \<and> correlation (h' 1) = Some ''grace_after'')"
proof -
  let ?h = "heap_of duplicate_log"
  let ?self = "\<lparr>raw_events = [0, 1, 2], timeline = [0, 1, 2], sessions = []\<rparr>"
  have fresh: "\<forall>x. correlation (?h x) = None"
    by (simp add: heap_of_fresh duplicate_log_def mk_event_def)
  have "\<exists>hb. build_sessions ?h ?self = Inr hb"
    by (simp add: duplicate_log_def example_defs datetime_defs scan_defs grace_defs)
  then obtain h' self' where run: "build_sessions ?h ?self = Inr (h', self')"
    by auto
  note inst = tags_kept_but_in_session_of_dfir [OF fresh run]
  have "\<exists>s. scan_loop (take 1 (timeline ?self)) (scan_start ?h (sessions ?self)) = Inr s
      \<and> correlation (event_heap s 0) = Some ''in_session''"
    by (simp add: duplicate_log_def example_defs datetime_defs scan_defs)
  then obtain s where s: "scan_loop (take 1 (timeline ?self)) (scan_start ?h (sessions ?self)) = Inr s"
    and s0: "correlation (event_heap s 0) = Some ''in_session''"
    by blast
  have nd: "\<not> (''in_session'' = ''in_session'' \<and> is_dfir (?h 0))"
    by (simp add: duplicate_log_def example_defs grace_defs)
  from inst [THEN conjunct1, rule_format, of 1 s 0 "''in_session''"] s s0 nd
  have t0: "correlation (h' 0) = Some ''in_session''" by blast
  have "\<exists>h1 ss1 hk ssk. session_pass ?h ?self = Inr (h1, ss1)
      \<and> grace_loop (take 1 (filter (\<lambda>r. is_dfir (h1 r)) (timeline ?self))) (h1, ss1)
          = Inr (hk, ssk)
      \<and> correlation (hk 1) = Some ''grace_after''"
    by (simp add: duplicate_log_def example_defs datetime_defs scan_defs grace_defs)
  then obtain h1 ss1 hk ssk where sp: "session_pass ?h ?self = Inr (h1, ss1)"
    and g: "grace_loop (take 1 (filter (\<lambda>r. is_dfir (h1 r)) (timeline ?self))) (h1, ss1)
          = Inr (hk, ssk)"
    and g1: "correlation (hk 1) = Some ''grace_after''"
    by blast
  have ng: "\<not> (''grace_after'' = ''in_session'' \<and> is_dfir (?h 1))"
    by simp
  from inst [THEN conjunct2, rule_format, of h1 ss1 1 hk ssk 1 "''grace_after''"] sp g g1 ng
  have t1: "correlation (h' 1) = Some ''grace_after''" by blast
  from run t0 t1 show ?thesis by simp
qed

end
